theory Spec2Isabelle
  imports Main "HOL-Library.AList"
begin

section \<open>Python built-ins used by \<open>get_licenses.py\<close>\<close>

text \<open>
  \<open>hex(n)\<close> and \<open>str(n)\<close> on integers, the substring test \<open>p in s\<close> and \<open>os.path.join\<close>
  (POSIX), written out as list functions on \<open>string\<close>. The built-ins \<open>hash\<close> and
  \<open>str.strip\<close> are not written out: the crawl takes them from its environment, below.
\<close>

definition hex_digit :: "nat \<Rightarrow> char" where
  "hex_digit d = ''0123456789abcdef'' ! d"

fun hex_nat :: "nat \<Rightarrow> string" where
  "hex_nat n = (if n < 16 then [hex_digit n] else hex_nat (n div 16) @ [hex_digit (n mod 16)])"

declare hex_nat.simps [simp del]

definition hex :: "int \<Rightarrow> string" where
  "hex i = (if i < 0 then ''-0x'' @ hex_nat (nat (- i)) else ''0x'' @ hex_nat (nat i))"

fun str_nat :: "nat \<Rightarrow> string" where
  "str_nat n = (if n < 10 then [hex_digit n] else str_nat (n div 10) @ [hex_digit (n mod 10)])"

declare str_nat.simps [simp del]

fun contains :: "string \<Rightarrow> string \<Rightarrow> bool" where
  "contains p [] = (p = [])"
| "contains p (c # cs) = (take (length p) (c # cs) = p \<or> contains p cs)"

definition os_path_join :: "string \<Rightarrow> string \<Rightarrow> string" where
  "os_path_join a b =
     (if take 1 b = ''/'' then b
      else if a = [] \<or> last a = CHR ''/'' then a @ b
      else a @ ''/'' @ b)"

text \<open>An f-string field \<open>{x}\<close> for a value that is a \<open>str\<close> or \<open>None\<close>.\<close>

definition fstr :: "string option \<Rightarrow> string" where
  "fstr x = (case x of None \<Rightarrow> ''None'' | Some s \<Rightarrow> s)"

section \<open>Data model\<close>

text \<open>The part of a \<open>requests\<close> response that the script reads.\<close>

record response =
  status_code :: int
  "text" :: string

text \<open>
  \<open>class License\<close> and \<open>class Package\<close>. The variable \<open>license\<close> of \<open>Package.scrape\<close>
  starts as \<open>None\<close> and stays so when the page has no License row, so the declared
  license, and a name built from it, are optional strings.
\<close>

record License =
  name :: "string option"
  type :: "string option"
  shash :: string
  path :: "string option"
  packages :: "string list"

record Package =
  ident :: string
  short :: string
  url :: string
  license :: "string option"
  license_url :: "string option"
  license_hash :: "string option"

text \<open>
  The rows of the properties table of a package page, as the row loop of
  \<open>Package.scrape\<close> reads them: a License row with an anchor (\<open>a.string\<close>, \<open>a["href"]\<close>),
  a License row without one (\<open>td.string\<close>), a Dependencies row with its spans
  (\<open>style\<close>, \<open>a.string\<close>, \<open>a["href"]\<close>), or any other row.
\<close>

datatype row =
    LicenseLink string string
  | LicenseText string
  | DependenciesRow "(string \<times> string \<times> string) list"
  | OtherRow

text \<open>
  What the run does to the outside world, in order: page requests and license requests
  (with the ident they were made for, the URL and the response received) and the texts
  passed to \<open>warn\<close>.
\<close>

datatype event =
    GetPage string string response
  | GetLicense string string response
  | Warn string

text \<open>
  The exceptions that end a run. The handlers of \<open>IOError\<close> print a message and then
  evaluate \<open>e.code\<close>, which an \<open>OSError\<close> does not have, so that a failing \<open>makedirs\<close> or
  \<open>open\<close> ends the run with \<open>AttributeError\<close>.
\<close>

datatype error = AttributeError | KeyError | TypeError | IndexError

text \<open>
  The collaborators of the crawl. \<open>hash\<close> is Python's built-in \<open>hash\<close> on \<open>str\<close>, which
  the interpreter salts per process, and \<open>str_strip\<close> is \<open>str.strip()\<close>. \<open>requests_get n u\<close>
  is the response to the \<open>n\<close>-th request of the run when it asks for \<open>u\<close>.
  \<open>BeautifulSoup\<close> is the parse of a page into its short title and property rows, or the
  exception that reading them raises (\<open>AttributeError\<close> for a missing element, \<open>KeyError\<close>
  for a span without a style). \<open>makedirs_fails\<close> and \<open>open_fails\<close> say for which paths
  the file system raises \<open>IOError\<close>. \<open>set_order xs\<close> is the order in which Python iterates over
  \<open>set(xs)\<close>, which the language leaves open, and \<open>supports_color\<close> is the result of the
  helper of that name, which asks the platform and the terminal.
\<close>

record env =
  hash :: "string \<Rightarrow> int"
  str_strip :: "string \<Rightarrow> string"
  requests_get :: "nat \<Rightarrow> string \<Rightarrow> response"
  BeautifulSoup :: "string \<Rightarrow> error + string \<times> row list"
  makedirs_fails :: "string \<Rightarrow> bool"
  open_fails :: "string \<Rightarrow> bool"
  set_order :: "string option list \<Rightarrow> string option list"
  supports_color :: bool

text \<open>
  The variable \<open>tree\<close> holds the tuple \<open>(ident, [])\<close> before the loop and a list after
  each \<open>todo.pop()\<close>. Lists of the tree are shared between the tree and \<open>todo\<close>, so they
  live in a heap of lists addressed by index; a tree entry is \<open>(ident, address)\<close>.
\<close>

datatype tree_var = Tuple string nat | ListRef nat

text \<open>
  The local state of \<open>Package.scrape\<close>. The head of \<open>todo\<close> is the end of the Python
  list (\<open>append\<close> and \<open>pop\<close> work there). \<open>nreq\<close> counts the requests made, \<open>fs_paths\<close>
  are the paths for which \<open>os.path.exists\<close> holds, \<open>fs_files\<close> the files written.
  The delay between requests only sleeps and is left out, as are the debug log and
  the progress line.
\<close>

record state =
  "done" :: "string set"
  res :: "(string \<times> Package) list"
  tree :: tree_var
  licenses :: "(string \<times> License) list"
  todo :: "(string \<times> string \<times> nat) list"
  heap :: "(string \<times> nat) list list"
  nreq :: nat
  fs_paths :: "string set"
  fs_files :: "(string \<times> string) list"
  trace :: "event list"

section \<open>\<open>Package.scrape\<close>\<close>

text \<open>The texts of the three warnings; \<open>CHR 0x27\<close> is the single quote.\<close>

definition warn_no_url :: "string \<Rightarrow> string" where
  "warn_no_url i =
     ''Failed to get license body for package '' @ [CHR 0x27] @ i @ [CHR 0x27]
       @ '' (no URL given)''"

definition warn_license_body :: "string \<Rightarrow> string" where
  "warn_license_body i =
     ''Failed to get license body for package '' @ [CHR 0x27] @ i @ [CHR 0x27]
       @ '' (cannot verify license hash)''"

definition warn_package :: "string \<Rightarrow> string" where
  "warn_package i =
     ''Failed to get package '' @ [CHR 0x27] @ i @ [CHR 0x27] @ '' (skipping it)''"

text \<open>The row loop: \<open>license\<close>, \<open>license_url\<close>, \<open>deps\<close> and the warnings it emits.\<close>

fun scan_rows :: "string \<Rightarrow> row list
    \<Rightarrow> string option \<times> string option \<times> (string \<times> string) list \<times> string list
    \<Rightarrow> string option \<times> string option \<times> (string \<times> string) list \<times> string list" where
  "scan_rows i [] acc = acc"
| "scan_rows i (LicenseLink a href # rs) (l, lu, d, w) =
     scan_rows i rs (Some a, Some (''https://hackage.haskell.org'' @ href), d, w)"
| "scan_rows i (LicenseText t # rs) (l, lu, d, w) =
     scan_rows i rs (Some t, lu, d, w @ [warn_no_url i])"
| "scan_rows i (DependenciesRow spans # rs) (l, lu, d, w) =
     scan_rows i rs (l, lu,
       map (\<lambda>(style, a, href). (a, ''https://hackage.haskell.org'' @ href))
         (filter (\<lambda>(style, a, href). \<not> contains ''font-size: small'' style) spans), w)"
| "scan_rows i (OtherRow # rs) acc = scan_rows i rs acc"

text \<open>The check of the download folder at the start of an iteration.\<close>

definition check_download :: "env \<Rightarrow> string option \<Rightarrow> state \<Rightarrow> error + state" where
  "check_download e download s =
     (case download of
        None \<Rightarrow> Inr s
      | Some d \<Rightarrow>
          if d \<in> fs_paths s then Inr s
          else if makedirs_fails e d then Inl AttributeError
          else Inr (s\<lparr>fs_paths := insert d (fs_paths s)\<rparr>))"

text \<open>
  The download of the license body. The test after the request reads \<open>html.status_code\<close>,
  the status of the package page, as the source does.
\<close>

definition get_license_body ::
    "env \<Rightarrow> string \<Rightarrow> string option \<Rightarrow> response \<Rightarrow> state \<Rightarrow> response option \<times> state" where
  "get_license_body e i lu html s =
     (case lu of
        None \<Rightarrow> (None, s)
      | Some u \<Rightarrow>
          let license_body = requests_get e (nreq s) u;
              s1 = s\<lparr>nreq := Suc (nreq s), trace := trace s @ [GetLicense i u license_body]\<rparr>
          in (Some license_body,
              if status_code html \<noteq> 200
              then s1\<lparr>trace := trace s1 @ [Warn (warn_license_body i)]\<rparr>
              else s1))"

text \<open>The content hash of a license body, or the sentinel when there is none.\<close>

definition license_hash_of :: "env \<Rightarrow> response option \<Rightarrow> string" where
  "license_hash_of e license_body =
     (case license_body of
        Some b \<Rightarrow> drop 2 (hex (hash e (str_strip e (text b))))
      | None \<Rightarrow> ''<unhashed>'')"

definition n_of_this_type :: "(string \<times> License) list \<Rightarrow> string option \<Rightarrow> nat" where
  "n_of_this_type ls l = sum_list (map (\<lambda>(h, L). if type L = l then 1 else 0) ls)"

definition license_name :: "(string \<times> License) list \<Rightarrow> string option \<Rightarrow> string option" where
  "license_name ls l =
     (let n = n_of_this_type ls l
      in if n = 0 then l else Some (fstr l @ ''('' @ str_nat n @ '')''))"

text \<open>
  The branch for a license hash that is not yet a key of \<open>licenses\<close>: the name, the
  path and directory when downloading, the new entry, and the file with the body.
\<close>

definition new_license ::
    "env \<Rightarrow> string option \<Rightarrow> string \<Rightarrow> string option \<Rightarrow> string \<Rightarrow> response option
      \<Rightarrow> state \<Rightarrow> error + state" where
  "new_license e download i l h license_body s =
     (let nm = license_name (licenses s) l
      in case download of
           None \<Rightarrow>
             Inr (s\<lparr>licenses := AList.update h
                    \<lparr>name = nm, type = l, shash = h, path = None, packages = []\<rparr> (licenses s)\<rparr>)
         | Some d \<Rightarrow>
             (case l of
                None \<Rightarrow> Inl TypeError
              | Some lt \<Rightarrow>
                  let dir = os_path_join d lt
                  in if dir \<notin> fs_paths s \<and> makedirs_fails e dir then Inl AttributeError
                     else
                       let p = os_path_join dir i;
                           s1 = s\<lparr>fs_paths := insert dir (fs_paths s),
                                  licenses := AList.update h
                                    \<lparr>name = nm, type = l, shash = h, path = Some p, packages = []\<rparr>
                                    (licenses s)\<rparr>
                       in case license_body of
                            None \<Rightarrow> Inr s1
                          | Some b \<Rightarrow>
                              if open_fails e p then Inl AttributeError
                              else Inr (s1\<lparr>fs_paths := insert p (fs_paths s1),
                                           fs_files := fs_files s1 @ [(p, text b)]\<rparr>)))"

text \<open>The last loop of the body: one fresh list per dependency, linked and queued.\<close>

fun push_deps :: "nat \<Rightarrow> (string \<times> string) list \<Rightarrow> state \<Rightarrow> state" where
  "push_deps t [] s = s"
| "push_deps t ((dident, durl) # ds) s =
     push_deps t ds
       (s\<lparr>heap := (heap s @ [[]])[t := heap s ! t @ [(dident, length (heap s))]],
          todo := (dident, durl, length (heap s)) # todo s\<rparr>)"

text \<open>
  One iteration of the \<open>while\<close> loop, in three parts: from the license hash to the
  queued dependencies; from the parse of the page to the license body; and the
  iteration itself, from \<open>todo.pop()\<close> to the request of the page.
\<close>

definition record_package ::
    "env \<Rightarrow> string option \<Rightarrow> string \<Rightarrow> string \<Rightarrow> nat \<Rightarrow> string \<Rightarrow> string option
      \<Rightarrow> string option \<Rightarrow> (string \<times> string) list \<Rightarrow> response option \<Rightarrow> state
      \<Rightarrow> error + state" where
  "record_package e download i u t sh l lu deps license_body s3 =
     (let h = license_hash_of e license_body
      in case (if h \<in> fst ` set (licenses s3) then Inr s3
               else new_license e download i l h license_body s3) of
           Inl err \<Rightarrow> Inl err
         | Inr s4 \<Rightarrow>
             Inr (push_deps t deps
               (s4\<lparr>licenses := AList.map_entry h (\<lambda>L. L\<lparr>packages := packages L @ [i]\<rparr>)
                                (licenses s4),
                   res := AList.update i
                            \<lparr>ident = i, short = sh, url = u, license = l,
                             license_url = lu, license_hash = Some h\<rparr> (res s4),
                   done := insert i (done s4)\<rparr>)))"

definition parse_page ::
    "env \<Rightarrow> string option \<Rightarrow> string \<Rightarrow> string \<Rightarrow> nat \<Rightarrow> response \<Rightarrow> state
      \<Rightarrow> error + state" where
  "parse_page e download i u t html s2 =
     (case BeautifulSoup e (text html) of
        Inl err \<Rightarrow> Inl err
      | Inr (sh, rows) \<Rightarrow>
          (case scan_rows i rows (None, None, [], []) of
             (l, lu, deps, ws) \<Rightarrow>
               (case get_license_body e i lu html (s2\<lparr>trace := trace s2 @ map Warn ws\<rparr>) of
                  (license_body, s3) \<Rightarrow>
                    record_package e download i u t sh l lu deps license_body s3)))"

definition loop_body :: "env \<Rightarrow> string option \<Rightarrow> state \<Rightarrow> error + state" where
  "loop_body e download s =
     (case todo s of
        [] \<Rightarrow> Inl IndexError
      | (i, u, t) # rest \<Rightarrow>
          (let s0 = s\<lparr>todo := rest, tree := ListRef t\<rparr>
           in if i \<in> done s then Inr s0
              else
                (case check_download e download s0 of
                   Inl err \<Rightarrow> Inl err
                 | Inr s1 \<Rightarrow>
                     (let html = requests_get e (nreq s1) u;
                          s2 = s1\<lparr>nreq := Suc (nreq s1),
                                 trace := trace s1 @ [GetPage i u html]\<rparr>
                      in if status_code html \<noteq> 200
                         then Inr (s2\<lparr>trace := trace s2 @ [Warn (warn_package i)],
                                     done := insert i (done s2)\<rparr>)
                         else parse_page e download i u t html s2))))"

text \<open>The state before the loop.\<close>

definition init :: "string \<Rightarrow> string \<Rightarrow> string set \<Rightarrow> state" where
  "init i u fs =
     \<lparr>done = {}, res = [], tree = Tuple i 0, licenses = [], todo = [(i, u, 0)],
      heap = [[]], nreq = 0, fs_paths = fs, fs_files = [], trace = []\<rparr>"

text \<open>
  The state after exactly \<open>n\<close> iterations, if the loop makes that many without
  raising.
\<close>

fun steps :: "env \<Rightarrow> string option \<Rightarrow> nat \<Rightarrow> state \<Rightarrow> state option" where
  "steps e download 0 s = Some s"
| "steps e download (Suc n) s =
     (if todo s = [] then None
      else case loop_body e download s of
             Inl err \<Rightarrow> None
           | Inr s' \<Rightarrow> steps e download n s')"

text \<open>
  The \<open>while\<close> loop with fuel: \<open>None\<close> when the fuel runs out before \<open>todo\<close> is empty.
\<close>

fun while_loop :: "env \<Rightarrow> string option \<Rightarrow> nat \<Rightarrow> state \<Rightarrow> (error + state) option" where
  "while_loop e download 0 s = (if todo s = [] then Some (Inr s) else None)"
| "while_loop e download (Suc n) s =
     (if todo s = [] then Some (Inr s)
      else case loop_body e download s of
             Inl err \<Rightarrow> Some (Inl err)
           | Inr s' \<Rightarrow> while_loop e download n s')"

text \<open>The value of the variable \<open>tree\<close>: nested lists of \<open>(ident, children)\<close> tuples.\<close>

datatype pytree = Node string "pytree list"

datatype tree_val = TupleVal string "pytree list" | ListVal "pytree list"

function read_list :: "(string \<times> nat) list list \<Rightarrow> nat \<Rightarrow> pytree list" where
  "read_list hp a =
     (if a < length hp
      then map (\<lambda>(i, c). Node i (if a < c then read_list hp c else [])) (hp ! a)
      else [])"
  by pat_completeness auto
termination
  by (relation "measure (\<lambda>(hp, a). length hp - a)") auto

declare read_list.simps [simp del]

definition read_tree :: "state \<Rightarrow> tree_val" where
  "read_tree s =
     (case tree s of
        Tuple i a \<Rightarrow> TupleVal i (read_list (heap s) a)
      | ListRef a \<Rightarrow> ListVal (read_list (heap s) a))"

text \<open>\<open>Package.scrape\<close>: the loop from the initial state, and the returned triple.\<close>

definition scrape :: "env \<Rightarrow> string set \<Rightarrow> nat \<Rightarrow> string \<Rightarrow> string \<Rightarrow> string option
    \<Rightarrow> (error + (string \<times> Package) list \<times> tree_val \<times> (string \<times> License) list) option" where
  "scrape e fs fuel i u download =
     (case while_loop e download fuel (init i u fs) of
        None \<Rightarrow> None
      | Some (Inl err) \<Rightarrow> Some (Inl err)
      | Some (Inr s) \<Rightarrow> Some (Inr (res s, read_tree s, licenses s)))"

section \<open>\<open>main\<close>\<close>

definition hackagify :: "string \<Rightarrow> string" where
  "hackagify package = ''https://hackage.haskell.org/package/'' @ package"

text \<open>The escape sequences around a license type and a package; \<open>CHR 0x1B\<close> is \<open>\033\<close>.\<close>

definition colors :: "env \<Rightarrow> string \<Rightarrow> bool" where
  "colors e output \<longleftrightarrow> output = ''-'' \<and> supports_color e"

definition accent :: "env \<Rightarrow> string \<Rightarrow> string" where
  "accent e output = (if colors e output then CHR 0x1B # ''[92;1m'' else [])"

definition bold :: "env \<Rightarrow> string \<Rightarrow> string" where
  "bold e output = (if colors e output then CHR 0x1B # ''[1m'' else [])"

definition end_color :: "env \<Rightarrow> string \<Rightarrow> string" where
  "end_color e output = (if colors e output then CHR 0x1B # ''[0m'' else [])"

text \<open>The idents of the list comprehension of the inner loop, in package-map order.\<close>

definition used_by :: "(string \<times> Package) list \<Rightarrow> string option \<Rightarrow> string list" where
  "used_by pkgs ty = map fst (filter (\<lambda>(i, p). license p = ty) pkgs)"

text \<open>The lines that one round of the loop over the license types prints.\<close>

definition type_section ::
    "env \<Rightarrow> string \<Rightarrow> (string \<times> Package) list \<Rightarrow> string option \<Rightarrow> string list" where
  "type_section e output pkgs ty =
     [[], ''License '' @ accent e output @ fstr ty @ end_color e output, ''   Used by: '']
     @ map (\<lambda>pkg. ''   - '' @ bold e output @ pkg @ end_color e output) (used_by pkgs ty)
     @ [[]]"

text \<open>
  The part of \<open>main\<close> after the crawl, with the variables of \<open>main\<close> that are in
  scope there: the lines written to the output, or the exception after a failing
  \<open>open\<close>, whose handler evaluates \<open>e.code\<close>. Neither
  \<open>show_list\<close> nor \<open>trim\<close> is read by the source.
\<close>

definition render :: "env \<Rightarrow> string \<Rightarrow> bool \<Rightarrow> bool \<Rightarrow> (string \<times> Package) list
    \<Rightarrow> (string \<times> License) list \<Rightarrow> error + string list" where
  "render e output show_list trim pkgs lics =
     (if output \<noteq> ''-'' \<and> open_fails e output then Inl AttributeError
      else Inr (concat (map (type_section e output pkgs)
                  (set_order e (map (\<lambda>(h, L). type L) lics)))))"

text \<open>\<open>main\<close>: the crawl and the report; the lines written and the exit code \<open>0\<close>.\<close>

definition main :: "env \<Rightarrow> string set \<Rightarrow> nat \<Rightarrow> string \<Rightarrow> string option \<Rightarrow> string
    \<Rightarrow> bool \<Rightarrow> bool \<Rightarrow> (error + string list \<times> int) option" where
  "main e fs fuel package download output show_list trim =
     (case scrape e fs fuel package (hackagify package) download of
        None \<Rightarrow> None
      | Some (Inl err) \<Rightarrow> Some (Inl err)
      | Some (Inr (pkgs, deps, lics)) \<Rightarrow>
          (case render e output show_list trim pkgs lics of
             Inl err \<Rightarrow> Some (Inl err)
           | Inr out \<Rightarrow> Some (Inr (out, 0))))"

section \<open>Observations of a run\<close>

text \<open>The idents whose page was requested, in the order of the requests.\<close>

fun page_idents :: "event list \<Rightarrow> string list" where
  "page_idents [] = []"
| "page_idents (GetPage i u r # es) = i # page_idents es"
| "page_idents (GetLicense i u r # es) = page_idents es"
| "page_idents (Warn w # es) = page_idents es"

text \<open>The response to the license request made for an ident, if one was made.\<close>

fun license_body_of :: "event list \<Rightarrow> string \<Rightarrow> response option" where
  "license_body_of [] j = None"
| "license_body_of (GetLicense i u r # es) j = (if i = j then Some r else license_body_of es j)"
| "license_body_of (GetPage i u r # es) j = license_body_of es j"
| "license_body_of (Warn w # es) j = license_body_of es j"

text \<open>The package idents of all License entries, entry after entry.\<close>

definition all_packages :: "(string \<times> License) list \<Rightarrow> string list" where
  "all_packages ls = concat (map (\<lambda>hL. packages (snd hL)) ls)"

text \<open>
  The visited set is the set of idents whose page was requested, no page was requested
  twice, the package map has one entry per key and only visited keys, and license
  requests were made for visited idents only.
\<close>

definition visited_inv :: "state \<Rightarrow> bool" where
  "visited_inv s \<longleftrightarrow>
     done s = set (page_idents (trace s)) \<and> distinct (page_idents (trace s)) \<and>
     fst ` set (res s) \<subseteq> done s \<and> distinct (map fst (res s)) \<and>
     (\<forall>j. license_body_of (trace s) j \<noteq> None \<longrightarrow> j \<in> done s)"

text \<open>
  The license map has one entry per key, the package lists of its entries are
  duplicate-free, pairwise disjoint and cover the keys of the package map, and every
  package is listed in the entry of the content hash of the body fetched for it.
\<close>

definition license_inv :: "env \<Rightarrow> state \<Rightarrow> bool" where
  "license_inv e s \<longleftrightarrow>
     distinct (map fst (licenses s)) \<and> distinct (all_packages (licenses s)) \<and>
     set (all_packages (licenses s)) = fst ` set (res s) \<and>
     (\<forall>(i, p) \<in> set (res s).
        license_hash p = Some (license_hash_of e (license_body_of (trace s) i)) \<and>
        (\<exists>L. map_of (licenses s) (license_hash_of e (license_body_of (trace s) i)) = Some L \<and>
             i \<in> set (packages L)))"

text \<open>A failed page request left a warning and no package.\<close>

definition failed_inv :: "state \<Rightarrow> bool" where
  "failed_inv s \<longleftrightarrow>
     (\<forall>i u r. GetPage i u r \<in> set (trace s) \<and> status_code r \<noteq> 200 \<longrightarrow>
        Warn (warn_package i) \<in> set (trace s) \<and>
        i \<notin> fst ` set (res s))"

text \<open>
  Two package maps compared without the stored license hashes, and two results of
  \<open>Package.scrape\<close> compared so: both out of fuel, both the same error, or both a
  result with the same package map up to the hashes and the same returned tree.
\<close>

definition forget_hashes :: "(string \<times> Package) list \<Rightarrow> (string \<times> Package) list" where
  "forget_hashes pkgs = map (\<lambda>ip. (fst ip, (snd ip)\<lparr>license_hash := None\<rparr>)) pkgs"

definition same_up_to_hashes ::
    "(error + (string \<times> Package) list \<times> tree_val \<times> (string \<times> License) list) option
     \<Rightarrow> (error + (string \<times> Package) list \<times> tree_val \<times> (string \<times> License) list) option
     \<Rightarrow> bool" where
  "same_up_to_hashes r1 r2 =
     (case (r1, r2) of
        (None, None) \<Rightarrow> True
      | (Some (Inl x), Some (Inl y)) \<Rightarrow> x = y
      | (Some (Inr (p1, t1, l1)), Some (Inr (p2, t2, l2))) \<Rightarrow>
          forget_hashes p1 = forget_hashes p2 \<and> t1 = t2
      | _ \<Rightarrow> False)"

text \<open>Two states of the loop that differ at most in the license hashes, the license map
  and the file system.\<close>

definition same_crawl :: "state \<Rightarrow> state \<Rightarrow> bool" where
  "same_crawl s1 s2 \<longleftrightarrow>
     todo s1 = todo s2 \<and> done s1 = done s2 \<and> heap s1 = heap s2 \<and> tree s1 = tree s2 \<and>
     nreq s1 = nreq s2 \<and> trace s1 = trace s2 \<and>
     forget_hashes (res s1) = forget_hashes (res s2)"

section \<open>A sample registry\<close>

text \<open>
  Package \<open>a\<close> depends on \<open>b\<close> and \<open>c\<close>; \<open>b\<close> depends on \<open>d\<close>; \<open>c\<close> depends on \<open>d\<close>, on
  \<open>x\<close>, whose page is missing, and on \<open>base\<close>, shown in small print. \<open>a\<close>, \<open>b\<close> and \<open>d\<close>
  link an MIT license; the bodies of \<open>a\<close> and \<open>d\<close> differ in white space only, that of \<open>b\<close>
  differs. \<open>c\<close> names BSD3 without a link. The hash is the length of the string, and
  \<open>strip\<close> is \<open>str.strip()\<close> on strings of code points below 256, where the white space
  of Python is the twelve characters of \<open>isspace\<close>.
\<close>

definition isspace :: "char \<Rightarrow> bool" where
  "isspace c = (c \<in> set [CHR 0x09, CHR 0x0A, CHR 0x0B, CHR 0x0C, CHR 0x0D,
                          CHR 0x1C, CHR 0x1D, CHR 0x1E, CHR 0x1F, CHR 0x20,
                          CHR 0x85, CHR 0xA0])"

definition strip :: "string \<Rightarrow> string" where
  "strip s = rev (dropWhile isspace (rev (dropWhile isspace s)))"

definition ok_response :: "string \<Rightarrow> response" where
  "ok_response t = \<lparr>status_code = 200, text = t\<rparr>"

definition not_found :: response where
  "not_found = \<lparr>status_code = 404, text = ''Not Found''\<rparr>"

definition ex1_get :: "string \<Rightarrow> response" where
  "ex1_get u =
     (if u = hackagify ''a'' then ok_response ''A''
      else if u = hackagify ''b'' then ok_response ''B''
      else if u = hackagify ''c'' then ok_response ''C''
      else if u = hackagify ''d'' then ok_response ''D''
      else if u = ''https://hackage.haskell.org/la'' then ok_response ''MIT text''
      else if u = ''https://hackage.haskell.org/lb'' then ok_response ''MIT text, changed''
      else if u = ''https://hackage.haskell.org/ld'' then ok_response '' MIT text  ''
      else not_found)"

definition ex1_soup :: "string \<Rightarrow> error + string \<times> row list" where
  "ex1_soup t =
     (if t = ''A'' then Inr (''pkg a'', [LicenseLink ''MIT'' ''/la'', OtherRow,
         DependenciesRow [([], ''b'', ''/package/b''), ([], ''c'', ''/package/c'')]])
      else if t = ''B'' then Inr (''pkg b'', [LicenseLink ''MIT'' ''/lb'',
         DependenciesRow [([], ''d'', ''/package/d'')]])
      else if t = ''C'' then Inr (''pkg c'', [LicenseText ''BSD3'',
         DependenciesRow [([], ''d'', ''/package/d''), ([], ''x'', ''/package/x''),
                          (''font-size: small'', ''base'', ''/package/base'')]])
      else if t = ''D'' then Inr (''pkg d'', [LicenseLink ''MIT'' ''/ld''])
      else Inl AttributeError)"

definition ex1 :: env where
  "ex1 = \<lparr>hash = (\<lambda>s. int (length s)), str_strip = strip, requests_get = (\<lambda>n. ex1_get),
          BeautifulSoup = ex1_soup, makedirs_fails = (\<lambda>p. False), open_fails = (\<lambda>p. False),
          set_order = remdups, supports_color = False\<rparr>"

definition ex1_trace4 :: "event list" where
  "ex1_trace4 =
     [GetPage ''a'' (hackagify ''a'') (ok_response ''A''),
      GetLicense ''a'' ''https://hackage.haskell.org/la'' (ok_response ''MIT text''),
      GetPage ''c'' (hackagify ''c'') (ok_response ''C''),
      Warn (warn_no_url ''c''),
      GetPage ''x'' (hackagify ''x'') not_found,
      Warn (warn_package ''x''),
      GetPage ''d'' (hackagify ''d'') (ok_response ''D''),
      GetLicense ''d'' ''https://hackage.haskell.org/ld'' (ok_response '' MIT text  '')]"

definition ex1_res4 :: "(string \<times> Package) list" where
  "ex1_res4 =
     [(''a'', \<lparr>ident = ''a'', short = ''pkg a'', url = hackagify ''a'', license = Some ''MIT'',
              license_url = Some ''https://hackage.haskell.org/la'', license_hash = Some ''8''\<rparr>),
      (''c'', \<lparr>ident = ''c'', short = ''pkg c'', url = hackagify ''c'', license = Some ''BSD3'',
              license_url = None, license_hash = Some ''<unhashed>''\<rparr>),
      (''d'', \<lparr>ident = ''d'', short = ''pkg d'', url = hackagify ''d'', license = Some ''MIT'',
              license_url = Some ''https://hackage.haskell.org/ld'', license_hash = Some ''8''\<rparr>)]"

definition ex1_licenses4 :: "(string \<times> License) list" where
  "ex1_licenses4 =
     [(''8'', \<lparr>name = Some ''MIT'', type = Some ''MIT'', shash = ''8'', path = None,
              packages = [''a'', ''d'']\<rparr>),
      (''<unhashed>'', \<lparr>name = Some ''BSD3'', type = Some ''BSD3'', shash = ''<unhashed>'',
              path = None, packages = [''c'']\<rparr>)]"

text \<open>The state after four iterations (\<open>a\<close>, \<open>c\<close>, \<open>x\<close>, \<open>d\<close>), with \<open>b\<close> left to do.\<close>

definition ex1_state4 :: state where
  "ex1_state4 =
     \<lparr>done = {''d'', ''x'', ''c'', ''a''}, res = ex1_res4, tree = ListRef 3,
      licenses = ex1_licenses4, todo = [(''b'', hackagify ''b'', 1)],
      heap = [[(''b'', 1), (''c'', 2)], [], [(''d'', 3), (''x'', 4)], [], []],
      nreq = 6, fs_paths = {}, fs_files = [], trace = ex1_trace4\<rparr>"

definition ex1_package_b :: Package where
  "ex1_package_b =
     \<lparr>ident = ''b'', short = ''pkg b'', url = hackagify ''b'', license = Some ''MIT'',
      license_url = Some ''https://hackage.haskell.org/lb'', license_hash = Some ''11''\<rparr>"

definition ex1_license_b :: License where
  "ex1_license_b =
     \<lparr>name = Some ''MIT(1)'', type = Some ''MIT'', shash = ''11'', path = None,
      packages = [''b'']\<rparr>"

text \<open>The state after \<open>b\<close>, and the final state, after \<open>d\<close> is popped once more.\<close>

definition ex1_state5 :: state where
  "ex1_state5 =
     \<lparr>done = {''b'', ''d'', ''x'', ''c'', ''a''}, res = ex1_res4 @ [(''b'', ex1_package_b)],
      tree = ListRef 1, licenses = ex1_licenses4 @ [(''11'', ex1_license_b)],
      todo = [(''d'', hackagify ''d'', 5)],
      heap = [[(''b'', 1), (''c'', 2)], [(''d'', 5)], [(''d'', 3), (''x'', 4)], [], [], []],
      nreq = 8, fs_paths = {}, fs_files = [],
      trace = ex1_trace4 @
        [GetPage ''b'' (hackagify ''b'') (ok_response ''B''),
         GetLicense ''b'' ''https://hackage.haskell.org/lb'' (ok_response ''MIT text, changed'')]\<rparr>"

definition ex1_final :: state where
  "ex1_final = ex1_state5\<lparr>todo := [], tree := ListRef 5\<rparr>"

text \<open>
  A second registry: \<open>a\<close> names MIT and depends on \<open>b\<close>, which names BSD3; neither page
  links a license.
\<close>

definition ex3_get :: "string \<Rightarrow> response" where
  "ex3_get u =
     (if u = hackagify ''a'' then ok_response ''A''
      else if u = hackagify ''b'' then ok_response ''B''
      else not_found)"

definition ex3_soup :: "string \<Rightarrow> error + string \<times> row list" where
  "ex3_soup t =
     (if t = ''A'' then Inr (''pkg a'', [LicenseText ''MIT'',
         DependenciesRow [([], ''b'', ''/package/b'')]])
      else if t = ''B'' then Inr (''pkg b'', [LicenseText ''BSD3''])
      else Inl AttributeError)"

definition ex3 :: env where
  "ex3 = ex1\<lparr>requests_get := (\<lambda>n. ex3_get), BeautifulSoup := ex3_soup\<rparr>"

text \<open>
  A third registry: \<open>a\<close> links an MIT license and has no dependencies, and the
  request for the license is answered with status 404.
\<close>

definition ex6_get :: "string \<Rightarrow> response" where
  "ex6_get u = (if u = hackagify ''a'' then ok_response ''A'' else not_found)"

definition ex6_soup :: "string \<Rightarrow> error + string \<times> row list" where
  "ex6_soup t =
     (if t = ''A'' then Inr (''pkg a'', [LicenseLink ''MIT'' ''/package/a/src/LICENSE''])
      else Inl AttributeError)"

definition ex6 :: env where
  "ex6 = ex1\<lparr>requests_get := (\<lambda>n. ex6_get), BeautifulSoup := ex6_soup\<rparr>"

text \<open>
  A fourth registry: \<open>a\<close> links a license it calls MIT and depends on \<open>b\<close>, which links
  a license it calls X11; both links give the same text.
\<close>

definition ex9_get :: "string \<Rightarrow> response" where
  "ex9_get u =
     (if u = hackagify ''a'' then ok_response ''A''
      else if u = hackagify ''b'' then ok_response ''B''
      else if u = ''https://hackage.haskell.org/la'' then ok_response ''License''
      else if u = ''https://hackage.haskell.org/lb'' then ok_response ''License''
      else not_found)"

definition ex9_soup :: "string \<Rightarrow> error + string \<times> row list" where
  "ex9_soup t =
     (if t = ''A'' then Inr (''pkg a'', [LicenseLink ''MIT'' ''/la'',
         DependenciesRow [([], ''b'', ''/package/b'')]])
      else if t = ''B'' then Inr (''pkg b'', [LicenseLink ''X11'' ''/lb''])
      else Inl AttributeError)"

definition ex9 :: env where
  "ex9 = ex1\<lparr>requests_get := (\<lambda>n. ex9_get), BeautifulSoup := ex9_soup\<rparr>"

text \<open>The package map and the license map of the crawl of the fourth registry, for a
  given content hash of the one license text.\<close>

definition ex9_res :: "string \<Rightarrow> (string \<times> Package) list" where
  "ex9_res h =
     [(''a'', \<lparr>ident = ''a'', short = ''pkg a'', url = hackagify ''a'', license = Some ''MIT'',
              license_url = Some ''https://hackage.haskell.org/la'', license_hash = Some h\<rparr>),
      (''b'', \<lparr>ident = ''b'', short = ''pkg b'', url = hackagify ''b'', license = Some ''X11'',
              license_url = Some ''https://hackage.haskell.org/lb'', license_hash = Some h\<rparr>)]"

definition ex9_licenses :: "string \<Rightarrow> (string \<times> License) list" where
  "ex9_licenses h =
     [(h, \<lparr>name = Some ''MIT'', type = Some ''MIT'', shash = h, path = None,
           packages = [''a'', ''b'']\<rparr>)]"

text \<open>The fourth registry under another hash function, the negated length.\<close>

definition neg_length :: "string \<Rightarrow> int" where
  "neg_length s = - int (length s)"

definition ex9_neg :: env where
  "ex9_neg = ex9\<lparr>hash := neg_length\<rparr>"

text \<open>The fourth registry on a terminal with colours.\<close>

definition ex9_color :: env where
  "ex9_color = ex9\<lparr>supports_color := True\<rparr>"

section \<open>One iteration of the loop, case by case\<close>

lemma update_fresh: "k \<notin> fst ` set al \<Longrightarrow> AList.update k v al = al @ [(k, v)]"
  by (induction al) auto

lemma check_download_fields:
  "check_download e dl s = Inr s' \<Longrightarrow>
     done s' = done s \<and> res s' = res s \<and> tree s' = tree s \<and> licenses s' = licenses s \<and>
     todo s' = todo s \<and> heap s' = heap s \<and> nreq s' = nreq s \<and> trace s' = trace s"
  by (auto simp: check_download_def split: option.splits if_splits)

lemma get_license_body_fields:
  "get_license_body e i lu html s = (b, s') \<Longrightarrow> status_code html = 200 \<Longrightarrow>
     b = map_option (requests_get e (nreq s)) lu \<and>
     done s' = done s \<and> res s' = res s \<and> tree s' = tree s \<and> licenses s' = licenses s \<and>
     todo s' = todo s \<and> heap s' = heap s \<and>
     nreq s' = (case lu of None \<Rightarrow> nreq s | Some v \<Rightarrow> Suc (nreq s)) \<and>
     trace s' = trace s @ (case lu of None \<Rightarrow> []
                           | Some v \<Rightarrow> [GetLicense i v (requests_get e (nreq s) v)])"
  by (auto simp: get_license_body_def Let_def split: option.splits)

lemma new_license_fields:
  "new_license e dl i l h b s = Inr s' \<Longrightarrow> h \<notin> fst ` set (licenses s) \<Longrightarrow>
     done s' = done s \<and> res s' = res s \<and> tree s' = tree s \<and>
     todo s' = todo s \<and> heap s' = heap s \<and> nreq s' = nreq s \<and> trace s' = trace s \<and>
     (\<exists>p. licenses s' = licenses s @
        [(h, \<lparr>name = license_name (licenses s) l, type = l, shash = h, path = p, packages = []\<rparr>)])"
  by (auto simp: new_license_def Let_def update_fresh split: option.splits if_splits)

lemma push_deps_fields:
  "done (push_deps t ds s) = done s \<and> res (push_deps t ds s) = res s \<and>
   tree (push_deps t ds s) = tree s \<and> licenses (push_deps t ds s) = licenses s \<and>
   nreq (push_deps t ds s) = nreq s \<and> trace (push_deps t ds s) = trace s"
  by (induction t ds s rule: push_deps.induct) auto

lemma push_deps_cong:
  "heap s1 = heap s2 \<Longrightarrow> todo s1 = todo s2 \<Longrightarrow>
   heap (push_deps t ds s1) = heap (push_deps t ds s2) \<and>
   todo (push_deps t ds s1) = todo (push_deps t ds s2)"
  by (induction ds arbitrary: s1 s2) auto

lemma loop_body_cases [consumes 2, case_names skip failed ok]:
  assumes "loop_body e dl s = Inr s'" and "todo s = (i, u, t) # rest"
  obtains
    (skip) "i \<in> done s" "s' = s\<lparr>todo := rest, tree := ListRef t\<rparr>"
  | (failed) html where "i \<notin> done s" "html = requests_get e (nreq s) u"
      "status_code html \<noteq> 200"
      "done s' = insert i (done s)" "res s' = res s" "licenses s' = licenses s"
      "tree s' = ListRef t" "todo s' = rest" "heap s' = heap s" "nreq s' = Suc (nreq s)"
      "trace s' = trace s @ [GetPage i u html, Warn (warn_package i)]"
  | (ok) html sh rows l lu deps ws b h ls where "i \<notin> done s"
      "html = requests_get e (nreq s) u" "status_code html = 200"
      "BeautifulSoup e (text html) = Inr (sh, rows)"
      "scan_rows i rows (None, None, [], []) = (l, lu, deps, ws)"
      "b = map_option (requests_get e (Suc (nreq s))) lu"
      "h = license_hash_of e b"
      "h \<in> fst ` set (licenses s) \<and> ls = licenses s \<or>
       h \<notin> fst ` set (licenses s) \<and> (\<exists>p. ls = licenses s @
          [(h, \<lparr>name = license_name (licenses s) l, type = l, shash = h, path = p,
                packages = []\<rparr>)])"
      "licenses s' = AList.map_entry h (\<lambda>L. L\<lparr>packages := packages L @ [i]\<rparr>) ls"
      "res s' = AList.update i \<lparr>ident = i, short = sh, url = u, license = l,
                 license_url = lu, license_hash = Some h\<rparr> (res s)"
      "done s' = insert i (done s)" "tree s' = ListRef t"
      "todo s' = todo (push_deps t deps (s\<lparr>todo := rest\<rparr>))"
      "heap s' = heap (push_deps t deps (s\<lparr>todo := rest\<rparr>))"
      "nreq s' = (case lu of None \<Rightarrow> Suc (nreq s) | Some v \<Rightarrow> Suc (Suc (nreq s)))"
      "trace s' = trace s @ [GetPage i u html] @ map Warn ws @
         (case lu of None \<Rightarrow> [] | Some v \<Rightarrow> [GetLicense i v (requests_get e (Suc (nreq s)) v)])"
proof (cases "i \<in> done s")
  case True
  with assms have "s' = s\<lparr>todo := rest, tree := ListRef t\<rparr>"
    by (simp add: loop_body_def)
  with True show ?thesis by (rule skip)
next
  case notdone: False
  define s0 where "s0 = s\<lparr>todo := rest, tree := ListRef t\<rparr>"
  from assms notdone obtain s1 where cd: "check_download e dl s0 = Inr s1"
    by (auto simp: loop_body_def s0_def split: sum.splits)
  note f1 = check_download_fields [OF cd]
  define html where "html = requests_get e (nreq s) u"
  define s2 where "s2 = s1\<lparr>nreq := Suc (nreq s1), trace := trace s1 @ [GetPage i u html]\<rparr>"
  have nreq1: "nreq s1 = nreq s" using f1 by (simp add: s0_def)
  show ?thesis
  proof (cases "status_code html = 200")
    case False
    with assms notdone cd nreq1 have
      "s' = s2\<lparr>trace := trace s2 @
          [Warn (warn_package i)],
          done := insert i (done s2)\<rparr>"
      by (simp add: loop_body_def s0_def [symmetric] s2_def html_def Let_def)
    with f1 have "done s' = insert i (done s)" "res s' = res s" "licenses s' = licenses s"
      "tree s' = ListRef t" "todo s' = rest" "heap s' = heap s" "nreq s' = Suc (nreq s)"
      "trace s' = trace s @ [GetPage i u html, Warn (warn_package i)]"
      by (simp_all add: s2_def s0_def)
    with notdone html_def False show ?thesis by (rule failed)
  next
    case True
    with assms notdone cd nreq1 have pp: "parse_page e dl i u t html s2 = Inr s'"
      by (simp add: loop_body_def s0_def [symmetric] s2_def html_def Let_def)
    then obtain sh rows where bs: "BeautifulSoup e (text html) = Inr (sh, rows)"
      by (auto simp: parse_page_def split: sum.splits)
    obtain l lu deps ws where sc: "scan_rows i rows (None, None, [], []) = (l, lu, deps, ws)"
      by (metis prod_cases4)
    obtain b s3 where gl:
      "get_license_body e i lu html (s2\<lparr>trace := trace s2 @ map Warn ws\<rparr>) = (b, s3)"
      by (metis surj_pair)
    note f3 = get_license_body_fields [OF gl True]
    from pp bs sc gl have rp: "record_package e dl i u t sh l lu deps b s3 = Inr s'"
      by (simp add: parse_page_def)
    define h where "h = license_hash_of e b"
    from rp obtain s4 where
      s4: "(if h \<in> fst ` set (licenses s3) then Inr s3 else new_license e dl i l h b s3) = Inr s4"
      and s': "s' = push_deps t deps
               (s4\<lparr>licenses := AList.map_entry h (\<lambda>L. L\<lparr>packages := packages L @ [i]\<rparr>)
                                (licenses s4),
                   res := AList.update i
                            \<lparr>ident = i, short = sh, url = u, license = l,
                             license_url = lu, license_hash = Some h\<rparr> (res s4),
                   done := insert i (done s4)\<rparr>)"
      unfolding record_package_def h_def Let_def by (auto split: sum.splits)
    have l3: "licenses s3 = licenses s" using f3 f1 by (simp add: s2_def s0_def)
    have f4: "done s4 = done s3 \<and> res s4 = res s3 \<and> tree s4 = tree s3 \<and>
     todo s4 = todo s3 \<and> heap s4 = heap s3 \<and> nreq s4 = nreq s3 \<and> trace s4 = trace s3"
      using s4 new_license_fields [of e dl i l h b s3 s4] by (auto split: if_splits)
    have ls: "h \<in> fst ` set (licenses s) \<and> licenses s4 = licenses s \<or>
       h \<notin> fst ` set (licenses s) \<and> (\<exists>p. licenses s4 = licenses s @
          [(h, \<lparr>name = license_name (licenses s) l, type = l, shash = h, path = p,
                packages = []\<rparr>)])"
      using s4 new_license_fields [of e dl i l h b s3 s4] l3 by (auto split: if_splits)
    have b: "b = map_option (requests_get e (Suc (nreq s))) lu"
      using f3 nreq1 by (simp add: s2_def)
    have hp: "heap s' = heap (push_deps t deps (s\<lparr>todo := rest\<rparr>))"
         "todo s' = todo (push_deps t deps (s\<lparr>todo := rest\<rparr>))"
      unfolding s' using f4 f3 f1
      by (intro push_deps_cong [THEN conjunct1] push_deps_cong [THEN conjunct2];
          simp add: s2_def s0_def)+
    have rest: "licenses s' = AList.map_entry h (\<lambda>L. L\<lparr>packages := packages L @ [i]\<rparr>) (licenses s4)"
      "res s' = AList.update i \<lparr>ident = i, short = sh, url = u, license = l,
                 license_url = lu, license_hash = Some h\<rparr> (res s)"
      "done s' = insert i (done s)" "tree s' = ListRef t"
      "nreq s' = (case lu of None \<Rightarrow> Suc (nreq s) | Some v \<Rightarrow> Suc (Suc (nreq s)))"
      "trace s' = trace s @ [GetPage i u html] @ map Warn ws @
         (case lu of None \<Rightarrow> [] | Some v \<Rightarrow> [GetLicense i v (requests_get e (Suc (nreq s)) v)])"
      unfolding s' using f4 f3 f1
      by (simp_all add: push_deps_fields s2_def s0_def split: option.splits)
    show ?thesis
      using notdone html_def True bs sc b h_def ls rest(1,2,3,4) hp(2,1) rest(5,6)
      by (rule ok)
  qed
qed

section \<open>Invariants of the loop\<close>

lemma page_idents_append: "page_idents (xs @ ys) = page_idents xs @ page_idents ys"
  by (induction xs rule: page_idents.induct) auto

lemma page_idents_Warn: "page_idents (map Warn ws) = []"
  by (induction ws) auto

lemma license_body_of_append:
  "license_body_of (xs @ ys) j =
     (case license_body_of xs j of None \<Rightarrow> license_body_of ys j | Some r \<Rightarrow> Some r)"
  by (induction xs j rule: license_body_of.induct) auto

lemma license_body_of_Warn: "license_body_of (map Warn ws) j = None"
  by (induction ws) auto

lemma visited_inv_init: "visited_inv (init i u fs)"
  by (simp add: visited_inv_def init_def)

lemma visited_inv_step:
  assumes "visited_inv s" and "loop_body e dl s = Inr s'"
  shows "visited_inv s'"
proof -
  from assms(2) obtain i u t rest where td: "todo s = (i, u, t) # rest"
    by (cases "todo s") (auto simp: loop_body_def)
  from assms(2) td show ?thesis
  proof (cases rule: loop_body_cases)
    case skip
    with assms(1) show ?thesis by (auto simp: visited_inv_def)
  next
    case (failed html)
    with assms(1) show ?thesis
      by (auto simp: visited_inv_def page_idents_append license_body_of_append
               split: option.splits)
  next
    case (ok html sh rows l lu deps ws b h ls)
    have keys: "fst ` set (res s') = insert i (fst ` set (res s))"
      and dist: "distinct (map fst (res s')) = distinct (map fst (res s))"
      unfolding ok by (simp_all add: dom_update distinct_update update_keys)
    have pi: "page_idents (trace s') = page_idents (trace s) @ [i]"
      unfolding ok
      by (simp add: page_idents_append page_idents_Warn split: option.splits)
    have lb: "\<forall>j. license_body_of (trace s') j \<noteq> None \<longrightarrow>
        license_body_of (trace s) j \<noteq> None \<or> j = i"
      unfolding ok
      by (auto simp: license_body_of_append license_body_of_Warn
               split: option.splits if_splits)
    from assms(1) have a: "done s = set (page_idents (trace s))"
      "distinct (page_idents (trace s))" "fst ` set (res s) \<subseteq> done s"
      "distinct (map fst (res s))"
      "\<forall>j. license_body_of (trace s) j \<noteq> None \<longrightarrow> j \<in> done s"
      unfolding visited_inv_def by blast+
    have "done s' = set (page_idents (trace s'))"
      using a(1) ok(11) pi by simp
    moreover have "distinct (page_idents (trace s'))"
      using a(1,2) ok(1) pi by simp
    moreover have "fst ` set (res s') \<subseteq> done s'"
      using a(3) keys ok(11) by blast
    moreover have "distinct (map fst (res s'))"
      using a(4) dist by simp
    moreover have "\<forall>j. license_body_of (trace s') j \<noteq> None \<longrightarrow> j \<in> done s'"
      using a(5) lb ok(11) by blast
    ultimately show ?thesis
      unfolding visited_inv_def by blast
  qed
qed

lemma all_packages_Nil [simp]: "all_packages [] = []"
  by (simp add: all_packages_def)

lemma all_packages_Cons [simp]: "all_packages (x # xs) = packages (snd x) @ all_packages xs"
  by (simp add: all_packages_def)

lemma all_packages_append: "all_packages (xs @ ys) = all_packages xs @ all_packages ys"
  by (simp add: all_packages_def)

lemma set_all_packages_map_entry:
  "h \<in> fst ` set ls \<Longrightarrow>
   set (all_packages (AList.map_entry h (\<lambda>L. L\<lparr>packages := packages L @ [i]\<rparr>) ls)) =
     insert i (set (all_packages ls))"
  by (induction ls) auto

lemma distinct_all_packages_map_entry:
  "distinct (all_packages ls) \<Longrightarrow> i \<notin> set (all_packages ls) \<Longrightarrow>
   distinct (all_packages (AList.map_entry h (\<lambda>L. L\<lparr>packages := packages L @ [i]\<rparr>) ls))"
proof (induction ls)
  case Nil
  then show ?case by simp
next
  case (Cons x xs)
  have sub: "set (all_packages (AList.map_entry h (\<lambda>L. L\<lparr>packages := packages L @ [i]\<rparr>) xs))
      \<subseteq> insert i (set (all_packages xs))"
    by (induction xs) auto
  from Cons sub show ?case by auto
qed

lemma license_inv_cong:
  "licenses s' = licenses s \<Longrightarrow> res s' = res s \<Longrightarrow>
   (\<And>j. license_body_of (trace s') j = license_body_of (trace s) j) \<Longrightarrow>
   license_inv e s \<Longrightarrow> license_inv e s'"
  by (simp add: license_inv_def del: map_of_eq_Some_iff)

lemma license_body_of_step:
  "license_body_of (tr @ GetPage i u html # map Warn ws @
       (case lu of None \<Rightarrow> [] | Some v \<Rightarrow> [GetLicense i v (f v)])) j =
     (case license_body_of tr j of
        Some r \<Rightarrow> Some r
      | None \<Rightarrow> if j = i then map_option f lu else None)"
  by (auto simp: license_body_of_append license_body_of_Warn split: option.splits)

lemma license_inv_init: "license_inv e (init i u fs)"
  by (simp add: license_inv_def init_def)

lemma license_inv_step:
  assumes "license_inv e s" and "visited_inv s" and "loop_body e dl s = Inr s'"
  shows "license_inv e s'"
proof -
  from assms(3) obtain i u t rest where td: "todo s = (i, u, t) # rest"
    by (cases "todo s") (auto simp: loop_body_def)
  from assms(1) have a: "distinct (map fst (licenses s))" "distinct (all_packages (licenses s))"
      "set (all_packages (licenses s)) = fst ` set (res s)"
      "\<forall>(j, p) \<in> set (res s).
        license_hash p = Some (license_hash_of e (license_body_of (trace s) j)) \<and>
        (\<exists>L. map_of (licenses s) (license_hash_of e (license_body_of (trace s) j)) = Some L \<and>
             j \<in> set (packages L))"
    unfolding license_inv_def by blast+
  from assms(2) have v: "fst ` set (res s) \<subseteq> done s"
      "\<forall>j. license_body_of (trace s) j \<noteq> None \<longrightarrow> j \<in> done s"
    unfolding visited_inv_def by blast+
  from assms(3) td show ?thesis
  proof (cases rule: loop_body_cases)
    case skip
    with assms(1) show ?thesis by (intro license_inv_cong [of s' s]) simp_all
  next
    case (failed html)
    have "license_body_of (trace s') j = license_body_of (trace s) j" for j
      unfolding failed by (simp add: license_body_of_append split: option.splits)
    with assms(1) failed show ?thesis by (intro license_inv_cong [of s' s]) simp_all
  next
    case (ok html sh rows l lu deps ws b h ls)
    let ?f = "\<lambda>L. L\<lparr>packages := packages L @ [i]\<rparr>"
    let ?P = "\<lparr>ident = i, short = sh, url = u, license = l,
                 license_url = lu, license_hash = Some h\<rparr>"
    have inew: "i \<notin> fst ` set (res s)" using v(1) ok(1) by blast
    have res': "res s' = res s @ [(i, ?P)]"
      unfolding ok(10) using inew by (rule update_fresh)
    have hls: "h \<in> fst ` set ls" using ok(8) by force
    have dls: "distinct (map fst ls)" using ok(8) a(1) by auto
    have pls: "all_packages ls = all_packages (licenses s)"
      using ok(8) by (auto simp: all_packages_append)
    have mls: "map_of (licenses s) k = Some L \<Longrightarrow> map_of ls k = Some L" for k L
      using ok(8) by (auto simp: map_add_Some_iff simp del: map_of_eq_Some_iff)
    have bi: "license_body_of (trace s) i = None" using v(2) ok(1) by blast
    have tnew: "license_body_of (trace s') i = b"
      unfolding ok(16) ok(6) by (simp add: license_body_of_step bi)
    have told: "j \<noteq> i \<Longrightarrow> license_body_of (trace s') j = license_body_of (trace s) j" for j
      unfolding ok(16) by (simp add: license_body_of_step split: option.splits)
    have m': "map_of (licenses s') = (map_of ls)(h := case map_of ls h of None \<Rightarrow> None
                | Some v' \<Rightarrow> Some (?f v'))"
      unfolding ok(9) by (rule map_of_map_entry)
    have "distinct (map fst (licenses s'))"
      unfolding ok(9) using dls by (rule distinct_map_entry)
    moreover have "distinct (all_packages (licenses s'))"
      unfolding ok(9) using a(2,3) inew pls by (intro distinct_all_packages_map_entry) auto
    moreover have "set (all_packages (licenses s')) = fst ` set (res s')"
      unfolding ok(9) res' using hls pls a(3) by (simp add: set_all_packages_map_entry)
    moreover have "\<forall>(j, p) \<in> set (res s').
        license_hash p = Some (license_hash_of e (license_body_of (trace s') j)) \<and>
        (\<exists>L. map_of (licenses s') (license_hash_of e (license_body_of (trace s') j)) = Some L \<and>
             j \<in> set (packages L))"
    proof (clarify)
      fix j p assume jp: "(j, p) \<in> set (res s')"
      show "license_hash p = Some (license_hash_of e (license_body_of (trace s') j)) \<and>
        (\<exists>L. map_of (licenses s') (license_hash_of e (license_body_of (trace s') j)) = Some L \<and>
             j \<in> set (packages L))"
      proof (cases "j = i")
        case True
        with jp res' inew have p: "p = ?P" by (auto simp: image_iff)
        from hls obtain L where L: "map_of ls h = Some L"
          by (metis domD dom_map_of_conv_image_fst)
        show ?thesis using True p L by (simp add: tnew ok(7) [symmetric] m')
      next
        case False
        with jp res' have old: "(j, p) \<in> set (res s)" by auto
        with a(4) obtain L where
          L: "license_hash p = Some (license_hash_of e (license_body_of (trace s) j))"
           "map_of (licenses s) (license_hash_of e (license_body_of (trace s) j)) = Some L"
           "j \<in> set (packages L)" by blast
        from mls [OF L(2)] L(1,3) show ?thesis
          by (auto simp: told [OF False] m')
      qed
    qed
    ultimately show ?thesis unfolding license_inv_def by blast
  qed
qed

lemma failed_inv_init: "failed_inv (init i u fs)"
  by (simp add: failed_inv_def init_def)

lemma GetPage_in_trace: "GetPage i u r \<in> set tr \<Longrightarrow> i \<in> set (page_idents tr)"
  by (induction tr rule: page_idents.induct) auto

lemma failed_inv_step:
  assumes "failed_inv s" and "visited_inv s" and "loop_body e dl s = Inr s'"
  shows "failed_inv s'"
proof -
  from assms(3) obtain i u t rest where td: "todo s = (i, u, t) # rest"
    by (cases "todo s") (auto simp: loop_body_def)
  from assms(2) have v: "fst ` set (res s) \<subseteq> done s" "done s = set (page_idents (trace s))"
    unfolding visited_inv_def by blast+
  from assms(3) td show ?thesis
  proof (cases rule: loop_body_cases)
    case skip
    with assms(1) show ?thesis by (simp add: failed_inv_def)
  next
    case (failed html)
    have inew: "i \<notin> fst ` set (res s)" using v(1) failed(1) by blast
    show ?thesis
      unfolding failed_inv_def
    proof (intro allI impI, elim conjE)
      fix j u' r assume g: "GetPage j u' r \<in> set (trace s')" and st: "status_code r \<noteq> 200"
      from g have "GetPage j u' r \<in> set (trace s) \<or> j = i"
        unfolding failed(11) by auto
      then show "Warn (warn_package j) \<in> set (trace s') \<and> j \<notin> fst ` set (res s')"
      proof
        assume "GetPage j u' r \<in> set (trace s)"
        with assms(1) st have "Warn (warn_package j) \<in> set (trace s) \<and> j \<notin> fst ` set (res s)"
          unfolding failed_inv_def by blast
        then show ?thesis unfolding failed(11) failed(5) by simp
      next
        assume "j = i"
        then show ?thesis using inew unfolding failed(11) failed(5) by simp
      qed
    qed
  next
    case (ok html sh rows l lu deps ws b h ls)
    have keys: "fst ` set (res s') = insert i (fst ` set (res s))"
      unfolding ok by (simp add: dom_update)
    have nofail: "GetPage i u' r \<notin> set (trace s)" for u' r
      using GetPage_in_trace v(2) ok(1) by blast
    have ev: "GetPage j u' r \<in> set (trace s') \<Longrightarrow>
       GetPage j u' r \<in> set (trace s) \<or> (j = i \<and> r = html)" for j u' r
      unfolding ok(16) by (auto split: option.splits)
    have mono: "set (trace s) \<subseteq> set (trace s')" unfolding ok(16) by auto
    show ?thesis
      unfolding failed_inv_def
    proof (intro allI impI, elim conjE)
      fix j u' r assume g: "GetPage j u' r \<in> set (trace s')" and st: "status_code r \<noteq> 200"
      from ev [OF g] st ok(3) have old: "GetPage j u' r \<in> set (trace s)" by auto
      with nofail have ji: "j \<noteq> i" by blast
      from assms(1) old st have "Warn (warn_package j) \<in> set (trace s) \<and> j \<notin> fst ` set (res s)"
        unfolding failed_inv_def by blast
      with mono ji show "Warn (warn_package j) \<in> set (trace s') \<and> j \<notin> fst ` set (res s')"
        unfolding keys by blast
    qed
  qed
qed

section \<open>The stored hash string determines the hash value\<close>

lemma hex_digit_inj: "a < 16 \<Longrightarrow> b < 16 \<Longrightarrow> hex_digit a = hex_digit b \<Longrightarrow> a = b"
proof -
  have d: "distinct ''0123456789abcdef''" by simp
  show "a < 16 \<Longrightarrow> b < 16 \<Longrightarrow> hex_digit a = hex_digit b \<Longrightarrow> a = b"
    unfolding hex_digit_def using nth_eq_iff_index_eq [OF d, of a b] by simp
qed

lemma hex_digit_in: "a < 16 \<Longrightarrow> hex_digit a \<in> set ''0123456789abcdef''"
  unfolding hex_digit_def by (rule nth_mem) simp

lemma hex_nat_nonempty: "hex_nat n \<noteq> []"
  by (subst hex_nat.simps) simp

lemma hex_nat_digits: "set (hex_nat n) \<subseteq> set ''0123456789abcdef''"
proof (induction n rule: hex_nat.induct)
  case (1 n)
  show ?case
  proof (cases "n < 16")
    case True
    then show ?thesis using hex_digit_in [of n] by (subst hex_nat.simps) simp
  next
    case False
    have "n mod 16 < 16" by simp
    from hex_digit_in [OF this] 1 [OF False] False show ?thesis
      by (subst hex_nat.simps) simp
  qed
qed

lemma hex_nat_inj: "hex_nat m = hex_nat n \<Longrightarrow> m = n"
proof (induction m arbitrary: n rule: hex_nat.induct)
  case (1 m)
  show ?case
  proof (cases "m < 16")
    case m: True
    show ?thesis
    proof (cases "n < 16")
      case True
      with m 1(2) show ?thesis
        by (simp add: hex_nat.simps [of m] hex_nat.simps [of n] hex_digit_inj)
    next
      case False
      with m 1(2) hex_nat_nonempty [of "n div 16"] show ?thesis
        by (simp add: hex_nat.simps [of m] hex_nat.simps [of n] Cons_eq_append_conv)
    qed
  next
    case m: False
    show ?thesis
    proof (cases "n < 16")
      case True
      with m 1(2) hex_nat_nonempty [of "m div 16"] show ?thesis
        by (simp add: hex_nat.simps [of m] hex_nat.simps [of n] append_eq_Cons_conv)
    next
      case False
      with m 1(2) have eq: "hex_nat (m div 16) = hex_nat (n div 16)"
        and dg: "hex_digit (m mod 16) = hex_digit (n mod 16)"
        by (simp_all add: hex_nat.simps [of m] hex_nat.simps [of n])
      from 1(1) [OF m eq] have "m div 16 = n div 16" .
      moreover from dg have "m mod 16 = n mod 16" by (intro hex_digit_inj) simp_all
      ultimately show ?thesis by (metis div_mult_mod_eq)
    qed
  qed
qed

lemma stored_hash_inj: "drop 2 (hex a) = drop 2 (hex b) \<Longrightarrow> a = b"
proof -
  assume eq: "drop 2 (hex a) = drop 2 (hex b)"
  have nx: "CHR ''x'' # xs \<noteq> hex_nat n" for xs n
  proof
    assume "CHR ''x'' # xs = hex_nat n"
    then have "CHR ''x'' \<in> set (hex_nat n)" by (metis list.set_intros(1))
    with hex_nat_digits [of n] show False by auto
  qed
  show ?thesis
  proof (cases "a < 0")
    case a: True
    show ?thesis
    proof (cases "b < 0")
      case True
      with a eq have "hex_nat (nat (- a)) = hex_nat (nat (- b))" by (simp add: hex_def)
      from hex_nat_inj [OF this] a True show ?thesis by simp
    next
      case False
      with a eq nx show ?thesis by (simp add: hex_def)
    qed
  next
    case a: False
    show ?thesis
    proof (cases "b < 0")
      case True
      with a eq nx [of "hex_nat (nat (- b))" "nat a"] show ?thesis by (simp add: hex_def)
    next
      case False
      with a eq have "hex_nat (nat a) = hex_nat (nat b)" by (simp add: hex_def)
      from hex_nat_inj [OF this] a False show ?thesis by simp
    qed
  qed
qed

lemma stored_hash_not_sentinel: "drop 2 (hex a) \<noteq> ''<unhashed>''"
proof
  assume eq: "drop 2 (hex a) = ''<unhashed>''"
  have "CHR ''<'' \<notin> set (hex_nat n)" for n using hex_nat_digits [of n] by auto
  moreover from eq have "CHR ''<'' \<in> set (drop 2 (hex a))" by simp
  ultimately show False by (auto simp: hex_def split: if_splits)
qed

lemma license_hash_of_eq_iff:
  "license_hash_of e x = license_hash_of e y \<longleftrightarrow>
     (case (x, y) of
        (None, None) \<Rightarrow> True
      | (Some bx, Some by) \<Rightarrow> hash e (str_strip e (text bx)) = hash e (str_strip e (text by))
      | _ \<Rightarrow> False)"
  using stored_hash_not_sentinel stored_hash_inj
  by (auto simp: license_hash_of_def split: option.splits) metis+

section \<open>The sample crawl, iteration by iteration\<close>

lemmas model_defs = scrape_def init_def loop_body_def check_download_def parse_page_def
     record_package_def get_license_body_def license_hash_of_def new_license_def license_name_def n_of_this_type_def
     strip_def isspace_def hex_def hex_nat.simps str_nat.simps hex_digit_def read_tree_def read_list.simps
     fstr_def os_path_join_def Let_def hackagify_def

lemmas ex1_defs = ex1_def ex1_get_def ex1_soup_def ok_response_def not_found_def
     ex1_state4_def ex1_state5_def ex1_final_def ex1_trace4_def ex1_res4_def ex1_licenses4_def
     ex1_package_b_def ex1_license_b_def

lemma ex1_step5: "loop_body ex1 None ex1_state4 = Inr ex1_state5"
  by (simp add: model_defs ex1_defs)

lemma ex1_steps4: "steps ex1 None 4 (init ''a'' (hackagify ''a'') {}) = Some ex1_state4"
  by (simp add: model_defs ex1_defs eval_nat_numeral)

lemma steps_Suc_end:
  "steps e dl n s = Some s' \<Longrightarrow> loop_body e dl s' = Inr s'' \<Longrightarrow> todo s' \<noteq> [] \<Longrightarrow>
   steps e dl (Suc n) s = Some s''"
proof (induction n arbitrary: s)
  case 0
  then show ?case by simp
next
  case (Suc n)
  from Suc.prems(1) obtain x where x: "todo s \<noteq> []" "loop_body e dl s = Inr x"
      "steps e dl n x = Some s'"
    by (auto split: if_splits sum.splits)
  from Suc.IH [OF x(3) Suc.prems(2,3)] have "steps e dl (Suc n) x = Some s''" .
  with x(1,2) show ?case by (subst steps.simps(2)) simp
qed

lemma while_loop_steps:
  "steps e dl k s = Some s' \<Longrightarrow> todo s' = [] \<Longrightarrow> k \<le> n \<Longrightarrow>
   while_loop e dl n s = Some (Inr s')"
proof (induction k arbitrary: s n)
  case 0
  then show ?case by (cases n) auto
next
  case (Suc k)
  then obtain m where "n = Suc m" by (cases n) auto
  with Suc show ?case by (auto split: if_splits sum.splits)
qed

lemma ex1_step6: "loop_body ex1 None ex1_state5 = Inr ex1_final"
  by (simp add: model_defs ex1_defs)

lemma ex1_steps5: "steps ex1 None 5 (init ''a'' (hackagify ''a'') {}) = Some ex1_state5"
  using steps_Suc_end [OF ex1_steps4 ex1_step5] by (simp add: ex1_state4_def)

lemma ex1_steps6: "steps ex1 None 6 (init ''a'' (hackagify ''a'') {}) = Some ex1_final"
  using steps_Suc_end [OF ex1_steps5 ex1_step6] by (simp add: ex1_state5_def)

lemma ex1_scrape: "scrape ex1 {} 6 ''a'' (hackagify ''a'') None =
    Some (Inr (ex1_res4 @ [(''b'', ex1_package_b)], ListVal [],
               ex1_licenses4 @ [(''11'', ex1_license_b)]))"
  using while_loop_steps [OF ex1_steps6, of 6]
  by (simp add: scrape_def ex1_final_def ex1_state5_def read_tree_def read_list.simps)

section \<open>Visited idents, failed pages and the package lists\<close>

lemma steps_invs:
  assumes "steps e dl n s = Some s'"
    and "visited_inv s \<and> license_inv e s \<and> failed_inv s"
  shows "visited_inv s' \<and> license_inv e s' \<and> failed_inv s'"
  using assms
proof (induction n arbitrary: s)
  case 0
  then show ?case by simp
next
  case (Suc n)
  from Suc.prems(1) obtain x where x: "loop_body e dl s = Inr x" "steps e dl n x = Some s'"
    by (auto split: if_splits sum.splits)
  from Suc.prems(2) x(1) have "visited_inv x \<and> license_inv e x \<and> failed_inv x"
    by (blast intro: visited_inv_step license_inv_step failed_inv_step)
  with Suc.IH x(2) show ?case by blast
qed

lemma run_invs:
  "steps e dl n (init i u fs) = Some s \<Longrightarrow>
   visited_inv s \<and> license_inv e s \<and> failed_inv s"
  by (erule steps_invs) (simp add: visited_inv_init license_inv_init failed_inv_init)

lemma scrape_steps:
  assumes "scrape e fs fuel i u dl = Some (Inr (pkgs, tv, lics))"
  shows "\<exists>k s. steps e dl k (init i u fs) = Some s \<and> todo s = [] \<and>
            pkgs = res s \<and> tv = read_tree s \<and> lics = licenses s"
proof -
  have wl: "while_loop e dl n s = Some (Inr s') \<Longrightarrow>
      \<exists>k. steps e dl k s = Some s' \<and> todo s' = []" for n s s'
  proof (induction n arbitrary: s)
    case 0
    then have "steps e dl 0 s = Some s' \<and> todo s' = []" by (auto split: if_splits)
    then show ?case by blast
  next
    case (Suc n)
    show ?case
    proof (cases "todo s = []")
      case True
      with Suc.prems have "steps e dl 0 s = Some s' \<and> todo s' = []" by auto
      then show ?thesis by blast
    next
      case False
      with Suc.prems obtain x where x: "loop_body e dl s = Inr x"
          "while_loop e dl n x = Some (Inr s')"
        by (auto split: sum.splits)
      from Suc.IH [OF x(2)] obtain k where "steps e dl k x = Some s'" "todo s' = []" by blast
      with False x(1) have "steps e dl (Suc k) s = Some s' \<and> todo s' = []" by simp
      then show ?thesis by blast
    qed
  qed
  from assms obtain s where s: "while_loop e dl fuel (init i u fs) = Some (Inr s)"
      "pkgs = res s" "tv = read_tree s" "lics = licenses s"
    by (auto simp: scrape_def split: option.splits sum.splits)
  from wl [OF s(1)] s(2-) show ?thesis by blast
qed

lemma distinct_count_list_1: "distinct xs \<Longrightarrow> x \<in> set xs \<Longrightarrow> count_list xs x = 1"
  by (induction xs) auto

lemma in_all_packages:
  "w \<in> set zs \<Longrightarrow> a \<in> set (packages (snd w)) \<Longrightarrow> a \<in> set (all_packages zs)"
  by (auto simp: all_packages_def)

lemma all_packages_unique:
  "distinct (all_packages ls) \<Longrightarrow> x \<in> set ls \<Longrightarrow> y \<in> set ls \<Longrightarrow>
   a \<in> set (packages (snd x)) \<Longrightarrow> a \<in> set (packages (snd y)) \<Longrightarrow> x = y"
proof (induction ls)
  case Nil
  then show ?case by simp
next
  case (Cons z zs)
  from Cons.prems(1) have d: "distinct (all_packages zs)"
    "set (packages (snd z)) \<inter> set (all_packages zs) = {}" by auto
  from Cons.prems(2,3) have "x = z \<and> y = z \<or> x = z \<and> y \<in> set zs \<or>
      x \<in> set zs \<and> y = z \<or> x \<in> set zs \<and> y \<in> set zs" by auto
  then show ?case
    using Cons.IH [OF d(1)] Cons.prems(4,5) d(2) in_all_packages [of x zs a]
      in_all_packages [of y zs a]
    by blast
qed

lemma all_packages_disjoint:
  "distinct (all_packages ls) \<Longrightarrow> j < k \<Longrightarrow> k < length ls \<Longrightarrow>
   set (packages (snd (ls ! j))) \<inter> set (packages (snd (ls ! k))) = {}"
proof (induction ls arbitrary: j k)
  case Nil
  then show ?case by simp
next
  case (Cons z zs)
  have mem: "m < length zs \<Longrightarrow> set (packages (snd (zs ! m))) \<subseteq> set (all_packages zs)" for m
    using in_all_packages [of "zs ! m" zs] by auto
  show ?case
  proof (cases j)
    case 0
    with Cons.prems obtain k' where k': "k = Suc k'" "k' < length zs" by (cases k) auto
    with 0 Cons.prems(1) mem [of k'] show ?thesis by auto
  next
    case (Suc j')
    with Cons.prems obtain k' where k': "k = Suc k'" "j' < k'" "k' < length zs"
      by (cases k) auto
    with Suc Cons.IH [of j' k'] Cons.prems(1) show ?thesis by simp
  qed
qed

lemma all_packages_entry_distinct:
  "distinct (all_packages ls) \<Longrightarrow> x \<in> set ls \<Longrightarrow> distinct (packages (snd x))"
  by (induction ls) auto

text \<open>
  Claim C2. In every state of a crawl, whatever the responses, no ident occurs twice
  among the page requests made so far, the visited set is exactly the set of these
  idents and has as many members as requests were made, and the package map has no
  key twice and only visited keys. The package map returned by \<open>scrape\<close> has no key
  twice. Several parents naming the same dependency therefore lead to one request and
  one entry.
\<close>

theorem each_ident_fetched_once:
  "(steps e download n (init i u fs) = Some s \<longrightarrow>
      distinct (page_idents (trace s)) \<and> done s = set (page_idents (trace s)) \<and>
      card (done s) = length (page_idents (trace s)) \<and>
      distinct (map fst (res s)) \<and> fst ` set (res s) \<subseteq> done s) \<and>
   (scrape e fs fuel i u download = Some (Inr (pkgs, tv, lics)) \<longrightarrow> distinct (map fst pkgs))"
proof (intro conjI impI)
  assume "steps e download n (init i u fs) = Some s"
  from run_invs [OF this] have v: "visited_inv s" by blast
  then show "distinct (page_idents (trace s))" "done s = set (page_idents (trace s))"
    "distinct (map fst (res s))" "fst ` set (res s) \<subseteq> done s"
    unfolding visited_inv_def by blast+
  then show "card (done s) = length (page_idents (trace s))"
    by (simp add: distinct_card)
next
  assume "scrape e fs fuel i u download = Some (Inr (pkgs, tv, lics))"
  from scrape_steps [OF this] obtain k s where
    "steps e download k (init i u fs) = Some s" "pkgs = res s" by blast
  with run_invs [of e download k i u fs s] show "distinct (map fst pkgs)"
    unfolding visited_inv_def by blast
qed

theorem each_ident_fetched_once_witness:
  "steps ex1 None 6 (init ''a'' (hackagify ''a'') {}) = Some ex1_final \<and>
   scrape ex1 {} 6 ''a'' (hackagify ''a'') None =
     Some (Inr (ex1_res4 @ [(''b'', ex1_package_b)], ListVal [],
                ex1_licenses4 @ [(''11'', ex1_license_b)])) \<and>
   page_idents (trace ex1_final) = [''a'', ''c'', ''x'', ''d'', ''b''] \<and>
   distinct (page_idents (trace ex1_final)) \<and>
   done ex1_final = set (page_idents (trace ex1_final)) \<and>
   card (done ex1_final) = length (page_idents (trace ex1_final)) \<and>
   map fst (res ex1_final) = [''a'', ''c'', ''d'', ''b''] \<and>
   distinct (map fst (res ex1_final)) \<and> fst ` set (res ex1_final) \<subseteq> done ex1_final \<and>
   distinct (map fst (ex1_res4 @ [(''b'', ex1_package_b)]))"
proof -
  have "page_idents (trace ex1_final) = [''a'', ''c'', ''x'', ''d'', ''b'']"
    "map fst (res ex1_final) = [''a'', ''c'', ''d'', ''b'']"
    by (simp_all add: ex1_final_def ex1_state5_def ex1_trace4_def ex1_res4_def)
  with ex1_steps6 ex1_scrape
    each_ident_fetched_once [of ex1 None 6 "''a''" "hackagify ''a''" "{}" ex1_final 6
      "ex1_res4 @ [(''b'', ex1_package_b)]" "ListVal []" "ex1_licenses4 @ [(''11'', ex1_license_b)]"]
  show ?thesis by blast
qed

text \<open>
  Claim C10. In every state of a crawl the package lists of the License entries are
  duplicate-free and pairwise disjoint, together they hold exactly the keys of the
  package map, and these keys are visited. As this holds before and after every
  iteration, an ident enters a package list in the iteration that adds it to the
  package map and to the visited set.
\<close>

theorem license_packages_partition:
  assumes "steps e download n (init i u fs) = Some s"
  shows "distinct (all_packages (licenses s)) \<and>
         set (all_packages (licenses s)) = fst ` set (res s) \<and>
         fst ` set (res s) \<subseteq> done s \<and>
         (\<forall>x \<in> set (licenses s). distinct (packages (snd x))) \<and>
         (\<forall>j k. j < k \<and> k < length (licenses s) \<longrightarrow>
            set (packages (snd (licenses s ! j))) \<inter> set (packages (snd (licenses s ! k))) = {})"
proof -
  from run_invs [OF assms] have v: "visited_inv s" and l: "license_inv e s" by blast+
  from l have d: "distinct (all_packages (licenses s))"
    and c: "set (all_packages (licenses s)) = fst ` set (res s)"
    unfolding license_inv_def by blast+
  from v have "fst ` set (res s) \<subseteq> done s" unfolding visited_inv_def by blast
  with d c all_packages_entry_distinct [OF d] all_packages_disjoint [OF d]
  show ?thesis by blast
qed

theorem license_packages_partition_witness:
  "steps ex1 None 6 (init ''a'' (hackagify ''a'') {}) = Some ex1_final \<and>
   map (\<lambda>x. packages (snd x)) (licenses ex1_final) = [[''a'', ''d''], [''c''], [''b'']] \<and>
   distinct (all_packages (licenses ex1_final)) \<and>
   set (all_packages (licenses ex1_final)) = fst ` set (res ex1_final) \<and>
   fst ` set (res ex1_final) \<subseteq> done ex1_final"
proof -
  have "map (\<lambda>x. packages (snd x)) (licenses ex1_final) = [[''a'', ''d''], [''c''], [''b'']]"
    by (simp add: ex1_final_def ex1_state5_def ex1_licenses4_def ex1_license_b_def)
  with ex1_steps6 license_packages_partition [OF ex1_steps6] show ?thesis by blast
qed

text \<open>
  Claim C7. If the trace of a crawl holds a page request for an ident that was answered
  with a status other than 200, then in that state and every later one the ident is
  visited, the warning for it was emitted, it is no key of the package map, and its
  page was requested exactly once.
\<close>

theorem failed_page_fetch_skipped:
  assumes "steps e download n (init i0 u0 fs) = Some s"
    and "GetPage i u r \<in> set (trace s)" and "status_code r \<noteq> 200"
  shows "i \<in> done s \<and> Warn (warn_package i) \<in> set (trace s) \<and> i \<notin> fst ` set (res s) \<and>
         count_list (page_idents (trace s)) i = 1"
proof -
  from run_invs [OF assms(1)] have v: "visited_inv s" and f: "failed_inv s" by blast+
  from v have d: "distinct (page_idents (trace s))" "done s = set (page_idents (trace s))"
    unfolding visited_inv_def by blast+
  from GetPage_in_trace [OF assms(2)] have m: "i \<in> set (page_idents (trace s))" .
  from f assms(2,3) have "Warn (warn_package i) \<in> set (trace s) \<and> i \<notin> fst ` set (res s)"
    unfolding failed_inv_def by blast
  with d m distinct_count_list_1 [OF d(1) m] show ?thesis by simp
qed

theorem failed_page_fetch_skipped_witness:
  "steps ex1 None 6 (init ''a'' (hackagify ''a'') {}) = Some ex1_final \<and>
   GetPage ''x'' (hackagify ''x'') not_found \<in> set (trace ex1_final) \<and>
   status_code not_found \<noteq> 200 \<and>
   ''x'' \<in> done ex1_final \<and> Warn (warn_package ''x'') \<in> set (trace ex1_final) \<and>
   ''x'' \<notin> fst ` set (res ex1_final) \<and> count_list (page_idents (trace ex1_final)) ''x'' = 1"
proof -
  have g: "GetPage ''x'' (hackagify ''x'') not_found \<in> set (trace ex1_final)"
    by (simp add: ex1_final_def ex1_state5_def ex1_trace4_def)
  have st: "status_code not_found \<noteq> 200" by (simp add: not_found_def)
  from ex1_steps6 g st failed_page_fetch_skipped [OF ex1_steps6 g st] show ?thesis by blast
qed

section \<open>License entries and content hashes\<close>

text \<open>
  Claim C1. For two packages \<open>a\<close> and \<open>b\<close> of the package map of a crawl: some License entry
  lists both if and only if the content hashes of the license bodies fetched for them
  are equal; each package stores that content hash; the hashes are equal exactly when
  neither has a body or both have one and the bodies, after \<open>str.strip()\<close>, have the same
  value of \<open>hash\<close>;
  each of the two is listed in exactly one entry; and when both have a body with the
  same text, exactly one entry lists either of them, and it lists both.
\<close>

theorem same_license_iff_same_hash:
  assumes "steps e download n (init i0 u0 fs) = Some s"
    and "(a, pa) \<in> set (res s)" and "(b, pb) \<in> set (res s)"
  shows "((\<exists>x \<in> set (licenses s). a \<in> set (packages (snd x)) \<and> b \<in> set (packages (snd x))) \<longleftrightarrow>
            license_hash_of e (license_body_of (trace s) a) =
            license_hash_of e (license_body_of (trace s) b)) \<and>
         license_hash pa = Some (license_hash_of e (license_body_of (trace s) a)) \<and>
         license_hash pb = Some (license_hash_of e (license_body_of (trace s) b)) \<and>
         (license_hash_of e (license_body_of (trace s) a) =
            license_hash_of e (license_body_of (trace s) b) \<longleftrightarrow>
            (case (license_body_of (trace s) a, license_body_of (trace s) b) of
               (None, None) \<Rightarrow> True
             | (Some ra, Some rb) \<Rightarrow> hash e (str_strip e (text ra)) = hash e (str_strip e (text rb))
             | _ \<Rightarrow> False)) \<and>
         (\<exists>!x. x \<in> set (licenses s) \<and> a \<in> set (packages (snd x))) \<and>
         (\<exists>!x. x \<in> set (licenses s) \<and> b \<in> set (packages (snd x))) \<and>
         (\<forall>ra rb. license_body_of (trace s) a = Some ra \<and> license_body_of (trace s) b = Some rb \<and>
            text ra = text rb \<longrightarrow>
            (\<exists>!x. x \<in> set (licenses s) \<and>
                  (a \<in> set (packages (snd x)) \<or> b \<in> set (packages (snd x)))) \<and>
            (\<exists>x \<in> set (licenses s). a \<in> set (packages (snd x)) \<and> b \<in> set (packages (snd x))))"
proof -
  let ?ha = "license_hash_of e (license_body_of (trace s) a)"
  let ?hb = "license_hash_of e (license_body_of (trace s) b)"
  from run_invs [OF assms(1)] have l: "license_inv e s" by blast
  from l have d: "distinct (all_packages (licenses s))"
    and r: "\<forall>(i, p) \<in> set (res s).
        license_hash p = Some (license_hash_of e (license_body_of (trace s) i)) \<and>
        (\<exists>L. map_of (licenses s) (license_hash_of e (license_body_of (trace s) i)) = Some L \<and>
             i \<in> set (packages L))"
    unfolding license_inv_def by blast+
  from r assms(2) have "case (a, pa) of (i, p) \<Rightarrow>
        license_hash p = Some (license_hash_of e (license_body_of (trace s) i)) \<and>
        (\<exists>L. map_of (licenses s) (license_hash_of e (license_body_of (trace s) i)) = Some L \<and>
             i \<in> set (packages L))" by (rule bspec)
  then obtain La where La: "license_hash pa = Some ?ha"
      "map_of (licenses s) ?ha = Some La" "a \<in> set (packages La)"
    unfolding prod.case by (elim conjE exE)
  from r assms(3) have "case (b, pb) of (i, p) \<Rightarrow>
        license_hash p = Some (license_hash_of e (license_body_of (trace s) i)) \<and>
        (\<exists>L. map_of (licenses s) (license_hash_of e (license_body_of (trace s) i)) = Some L \<and>
             i \<in> set (packages L))" by (rule bspec)
  then obtain Lb where Lb: "license_hash pb = Some ?hb"
      "map_of (licenses s) ?hb = Some Lb" "b \<in> set (packages Lb)"
    unfolding prod.case by (elim conjE exE)
  have ina: "(?ha, La) \<in> set (licenses s)" using La(2) by (rule map_of_SomeD)
  have inb: "(?hb, Lb) \<in> set (licenses s)" using Lb(2) by (rule map_of_SomeD)
  have pa: "a \<in> set (packages (snd (?ha, La)))" using La(3) by simp
  have pb: "b \<in> set (packages (snd (?hb, Lb)))" using Lb(3) by simp
  have ua: "x = (?ha, La)" if "x \<in> set (licenses s)" "a \<in> set (packages (snd x))" for x
    using d that(1) ina that(2) pa by (rule all_packages_unique)
  have ub: "x = (?hb, Lb)" if "x \<in> set (licenses s)" "b \<in> set (packages (snd x))" for x
    using d that(1) inb that(2) pb by (rule all_packages_unique)
  have iff: "(\<exists>x \<in> set (licenses s). a \<in> set (packages (snd x)) \<and> b \<in> set (packages (snd x)))
      \<longleftrightarrow> ?ha = ?hb"
  proof
    assume "\<exists>x \<in> set (licenses s). a \<in> set (packages (snd x)) \<and> b \<in> set (packages (snd x))"
    then obtain x where x: "x \<in> set (licenses s)" "a \<in> set (packages (snd x))"
        "b \<in> set (packages (snd x))" by blast
    from ua [OF x(1,2)] ub [OF x(1,3)] show "?ha = ?hb" by simp
  next
    assume eq: "?ha = ?hb"
    with La(2) Lb(2) have "La = Lb" by simp
    with pb eq have "b \<in> set (packages (snd (?ha, La)))" by simp
    with ina pa show
      "\<exists>x \<in> set (licenses s). a \<in> set (packages (snd x)) \<and> b \<in> set (packages (snd x))"
      by (intro bexI [of _ "(?ha, La)"] conjI)
  qed
  have exa: "\<exists>!x. x \<in> set (licenses s) \<and> a \<in> set (packages (snd x))"
  proof (rule ex1I [of _ "(?ha, La)"])
    show "(?ha, La) \<in> set (licenses s) \<and> a \<in> set (packages (snd (?ha, La)))"
      using ina pa by (rule conjI)
  next
    fix x assume "x \<in> set (licenses s) \<and> a \<in> set (packages (snd x))"
    then show "x = (?ha, La)" using ua by blast
  qed
  have exb: "\<exists>!x. x \<in> set (licenses s) \<and> b \<in> set (packages (snd x))"
  proof (rule ex1I [of _ "(?hb, Lb)"])
    show "(?hb, Lb) \<in> set (licenses s) \<and> b \<in> set (packages (snd (?hb, Lb)))"
      using inb pb by (rule conjI)
  next
    fix x assume "x \<in> set (licenses s) \<and> b \<in> set (packages (snd x))"
    then show "x = (?hb, Lb)" using ub by blast
  qed
  have same: "(\<exists>!x. x \<in> set (licenses s) \<and>
                  (a \<in> set (packages (snd x)) \<or> b \<in> set (packages (snd x)))) \<and>
            (\<exists>x \<in> set (licenses s). a \<in> set (packages (snd x)) \<and> b \<in> set (packages (snd x)))"
    if t: "license_body_of (trace s) a = Some ra" "license_body_of (trace s) b = Some rb"
      "text ra = text rb" for ra rb
  proof -
    from t have eq: "?ha = ?hb" by (simp add: license_hash_of_def)
    with La(2) Lb(2) have LL: "La = Lb" by simp
    have "\<exists>!x. x \<in> set (licenses s) \<and>
                  (a \<in> set (packages (snd x)) \<or> b \<in> set (packages (snd x)))"
    proof (rule ex1I [of _ "(?ha, La)"])
      show "(?ha, La) \<in> set (licenses s) \<and>
          (a \<in> set (packages (snd (?ha, La))) \<or> b \<in> set (packages (snd (?ha, La))))"
        using ina pa by blast
    next
      fix x assume "x \<in> set (licenses s) \<and>
          (a \<in> set (packages (snd x)) \<or> b \<in> set (packages (snd x)))"
      then have "x = (?ha, La) \<or> x = (?hb, Lb)" using ua ub by blast
      with eq LL show "x = (?ha, La)" by simp
    qed
    moreover from iff eq have
      "\<exists>x \<in> set (licenses s). a \<in> set (packages (snd x)) \<and> b \<in> set (packages (snd x))"
      by (rule iffD2)
    ultimately show ?thesis by (rule conjI)
  qed
  have allsame: "\<forall>ra rb. license_body_of (trace s) a = Some ra \<and>
            license_body_of (trace s) b = Some rb \<and> text ra = text rb \<longrightarrow>
            (\<exists>!x. x \<in> set (licenses s) \<and>
                  (a \<in> set (packages (snd x)) \<or> b \<in> set (packages (snd x)))) \<and>
            (\<exists>x \<in> set (licenses s). a \<in> set (packages (snd x)) \<and> b \<in> set (packages (snd x)))"
    using same by (intro allI impI) (elim conjE)
  show ?thesis
    by (intro conjI iff La(1) Lb(1) license_hash_of_eq_iff exa exb allsame)
qed

theorem same_license_iff_same_hash_witness:
  "steps ex1 None 6 (init ''a'' (hackagify ''a'') {}) = Some ex1_final \<and>
   (''a'', snd (ex1_res4 ! 0)) \<in> set (res ex1_final) \<and>
   (''d'', snd (ex1_res4 ! 2)) \<in> set (res ex1_final) \<and>
   license_body_of (trace ex1_final) ''a'' = Some (ok_response ''MIT text'') \<and>
   license_body_of (trace ex1_final) ''d'' = Some (ok_response '' MIT text  '') \<and>
   license_hash_of ex1 (Some (ok_response ''MIT text'')) = ''8'' \<and>
   license_hash_of ex1 (Some (ok_response '' MIT text  '')) = ''8'' \<and>
   license_hash_of ex1 (Some (ok_response (CHR 0xA0 # ''MIT text'' @ [CHR 0x85]))) = ''8'' \<and>
   (\<exists>x \<in> set (licenses ex1_final). ''a'' \<in> set (packages (snd x)) \<and> ''d'' \<in> set (packages (snd x)))"
proof -
  have a: "(''a'', snd (ex1_res4 ! 0)) \<in> set (res ex1_final)"
    and d: "(''d'', snd (ex1_res4 ! 2)) \<in> set (res ex1_final)"
    by (simp_all add: ex1_final_def ex1_state5_def ex1_res4_def)
  have b: "license_body_of (trace ex1_final) ''a'' = Some (ok_response ''MIT text'')"
     "license_body_of (trace ex1_final) ''d'' = Some (ok_response '' MIT text  '')"
    by (simp_all add: ex1_final_def ex1_state5_def ex1_trace4_def)
  have h: "license_hash_of ex1 (Some (ok_response ''MIT text'')) = ''8''"
   "license_hash_of ex1 (Some (ok_response '' MIT text  '')) = ''8''"
   "license_hash_of ex1 (Some (ok_response (CHR 0xA0 # ''MIT text'' @ [CHR 0x85]))) = ''8''"
    by (simp_all add: model_defs ex1_def ok_response_def)
  from same_license_iff_same_hash [OF ex1_steps6 a d, THEN conjunct1] b h
  have "\<exists>x \<in> set (licenses ex1_final). ''a'' \<in> set (packages (snd x)) \<and> ''d'' \<in> set (packages (snd x))"
    by simp
  then show ?thesis
    by (intro conjI ex1_steps6 a d b h)
qed

section \<open>Names of new License entries\<close>

lemma n_of_this_type_filter:
  "n_of_this_type ls l = length (filter (\<lambda>x. type (snd x) = l) ls)"
  unfolding n_of_this_type_def by (induction ls) auto

lemma map_entry_append_fresh:
  "k \<notin> fst ` set xs \<Longrightarrow> AList.map_entry k f (xs @ [(k, v)]) = xs @ [(k, f v)]"
  by (induction xs) auto

lemma update_member: "(k, v) \<in> set (AList.update k v al)"
  by (induction al) auto

text \<open>
  Claim C4. When an iteration adds an entry under a key that the license map did not
  have, the name of the new License is its declared type if no entry before had that
  type, and else the type followed by \<open>(n)\<close>, with \<open>n\<close> the number of entries before of that
  type. The entry is appended, its type is the declared license of the package just
  processed, and this package is its only one so far. The counter looks at entries of
  the same type only.
\<close>

theorem new_license_name:
  assumes "loop_body e download s = Inr s'" and "(h, L) \<in> set (licenses s')"
    and "h \<notin> fst ` set (licenses s)"
  shows "name L =
           (let n = length (filter (\<lambda>x. type (snd x) = type L) (licenses s))
            in if n = 0 then type L else Some (fstr (type L) @ ''('' @ str_nat n @ '')'')) \<and>
         licenses s' = licenses s @ [(h, L)] \<and>
         (\<exists>i p. (i, p) \<in> set (res s') \<and> i \<notin> done s \<and> license p = type L \<and>
                license_hash p = Some h \<and> packages L = [i])"
proof -
  from assms(1) obtain i u t rest where td: "todo s = (i, u, t) # rest"
    by (cases "todo s") (auto simp: loop_body_def)
  from assms(2) have hk: "h \<in> fst ` set (licenses s')" by force
  from assms(1) td show ?thesis
  proof (cases rule: loop_body_cases)
    case skip
    with hk assms(3) show ?thesis by simp
  next
    case (failed html)
    with hk assms(3) show ?thesis by simp
  next
    case (ok html sh rows l lu deps ws b h' ls)
    let ?f = "\<lambda>L. L\<lparr>packages := packages L @ [i]\<rparr>"
    let ?P = "\<lparr>ident = i, short = sh, url = u, license = l,
                 license_url = lu, license_hash = Some h'\<rparr>"
    have keys: "fst ` set (licenses s') = fst ` set ls"
      unfolding ok(9) by (rule dom_map_entry)
    from ok(8) show ?thesis
    proof (elim disjE conjE exE)
      assume "h' \<in> fst ` set (licenses s)" "ls = licenses s"
      with keys hk assms(3) show ?thesis by simp
    next
      fix p assume fresh: "h' \<notin> fst ` set (licenses s)"
        and ls: "ls = licenses s @ [(h', \<lparr>name = license_name (licenses s) l, type = l,
                    shash = h', path = p, packages = []\<rparr>)]"
      let ?N = "\<lparr>name = license_name (licenses s) l, type = l,
                    shash = h', path = p, packages = [i]\<rparr>"
      have l': "licenses s' = licenses s @ [(h', ?N)]"
        unfolding ok(9) ls using fresh by (simp add: map_entry_append_fresh)
      with assms(2,3) have hL: "h = h'" "L = ?N" by (auto simp: image_iff)
      have nm: "name L = (let n = length (filter (\<lambda>x. type (snd x) = type L) (licenses s))
            in if n = 0 then type L else Some (fstr (type L) @ ''('' @ str_nat n @ '')''))"
        unfolding hL by (simp add: license_name_def n_of_this_type_filter)
      have "(i, ?P) \<in> set (res s')" unfolding ok(10) by (rule update_member)
      with ok(1) hL have ex: "\<exists>i p. (i, p) \<in> set (res s') \<and> i \<notin> done s \<and> license p = type L \<and>
                license_hash p = Some h \<and> packages L = [i]"
        by (intro exI [of _ i] exI [of _ ?P]) simp
      from l' hL have l'': "licenses s' = licenses s @ [(h, L)]" by simp
      from nm l'' ex show ?thesis by (intro conjI)
    qed
  qed
qed

theorem new_license_name_witness:
  "loop_body ex1 None ex1_state4 = Inr ex1_state5 \<and>
   (''11'', ex1_license_b) \<in> set (licenses ex1_state5) \<and>
   ''11'' \<notin> fst ` set (licenses ex1_state4) \<and>
   map (\<lambda>x. name (snd x)) (licenses ex1_state4) = [Some ''MIT'', Some ''BSD3''] \<and>
   length (filter (\<lambda>x. type (snd x) = type ex1_license_b) (licenses ex1_state4)) = 1 \<and>
   name ex1_license_b = Some ''MIT(1)'' \<and>
   licenses ex1_state5 = licenses ex1_state4 @ [(''11'', ex1_license_b)]"
proof -
  have m: "(''11'', ex1_license_b) \<in> set (licenses ex1_state5)"
    and f: "''11'' \<notin> fst ` set (licenses ex1_state4)"
    and n: "map (\<lambda>x. name (snd x)) (licenses ex1_state4) = [Some ''MIT'', Some ''BSD3'']"
    and c: "length (filter (\<lambda>x. type (snd x) = type ex1_license_b) (licenses ex1_state4)) = 1"
    by (simp_all add: ex1_state5_def ex1_state4_def ex1_licenses4_def ex1_license_b_def)
  from new_license_name [OF ex1_step5 m f] c
  have "name ex1_license_b = Some ''MIT(1)'' \<and>
        licenses ex1_state5 = licenses ex1_state4 @ [(''11'', ex1_license_b)]"
    by (simp add: ex1_license_b_def fstr_def str_nat.simps hex_digit_def)
  with ex1_step5 m f n c show ?thesis by (intro conjI) simp_all
qed

section \<open>The crawl on the other registries\<close>

lemmas ex_defs = ex1_def ex3_def ex3_get_def ex3_soup_def ex6_def ex6_get_def ex6_soup_def
  ex9_def ex9_get_def ex9_soup_def ok_response_def not_found_def

text \<open>
  Claim C3, evaluated on the second registry: \<open>a\<close> names MIT and \<open>b\<close> names BSD3, neither has
  a license body, and the crawl puts both in the one entry keyed \<open><unhashed>\<close>, of type
  MIT. The sentinel does not depend on the declared type.
\<close>

theorem unhashed_sentinel_shared_across_types:
  "scrape ex3 {} 2 ''a'' (hackagify ''a'') None =
     Some (Inr
       ([(''a'', \<lparr>ident = ''a'', short = ''pkg a'', url = hackagify ''a'', license = Some ''MIT'',
                  license_url = None, license_hash = Some ''<unhashed>''\<rparr>),
         (''b'', \<lparr>ident = ''b'', short = ''pkg b'', url = hackagify ''b'', license = Some ''BSD3'',
                  license_url = None, license_hash = Some ''<unhashed>''\<rparr>)],
        ListVal [],
        [(''<unhashed>'', \<lparr>name = Some ''MIT'', type = Some ''MIT'', shash = ''<unhashed>'',
                            path = None, packages = [''a'', ''b'']\<rparr>)]))"
  by (simp add: model_defs ex_defs eval_nat_numeral)

text \<open>
  Claim C5, evaluated on the sample registry: the crawl returns the package map and the
  license map, but the returned tree is the list of the item popped last, which is
  empty, while the list of the root, which holds the dependency tree, stays behind in
  the heap.
\<close>

theorem returned_tree_is_last_list:
  "scrape ex1 {} 6 ''a'' (hackagify ''a'') None =
     Some (Inr (ex1_res4 @ [(''b'', ex1_package_b)], ListVal [],
                ex1_licenses4 @ [(''11'', ex1_license_b)])) \<and>
   steps ex1 None 6 (init ''a'' (hackagify ''a'') {}) = Some ex1_final \<and>
   tree ex1_final = ListRef 5 \<and>
   read_list (heap ex1_final) 5 = [] \<and>
   read_list (heap ex1_final) 0 =
     [Node ''b'' [Node ''d'' []], Node ''c'' [Node ''d'' [], Node ''x'' []]]"
  using ex1_scrape ex1_steps6
  by (simp add: ex1_final_def ex1_state5_def read_list.simps)

text \<open>
  Claim C6, evaluated on the third registry: the license request is answered with
  status 404, the trace shows no warning, the stored hash is the hash of the text of
  the 404 response and not the sentinel, and with a download folder that text is
  written to the license file.
\<close>

theorem failed_license_body_is_hashed:
  "steps ex6 None 1 (init ''a'' (hackagify ''a'') {}) =
     Some \<lparr>done = {''a''},
           res = [(''a'', \<lparr>ident = ''a'', short = ''pkg a'', url = hackagify ''a'',
                     license = Some ''MIT'',
                     license_url = Some ''https://hackage.haskell.org/package/a/src/LICENSE'',
                     license_hash = Some ''9''\<rparr>)],
           tree = ListRef 0,
           licenses = [(''9'', \<lparr>name = Some ''MIT'', type = Some ''MIT'', shash = ''9'',
                          path = None, packages = [''a'']\<rparr>)],
           todo = [], heap = [[]], nreq = 2, fs_paths = {}, fs_files = [],
           trace = [GetPage ''a'' (hackagify ''a'') (ok_response ''A''),
                    GetLicense ''a'' ''https://hackage.haskell.org/package/a/src/LICENSE''
                      \<lparr>status_code = 404, text = ''Not Found''\<rparr>]\<rparr> \<and>
   license_hash_of ex6 (Some \<lparr>status_code = 404, text = ''Not Found''\<rparr>) = ''9'' \<and>
   map_option fs_files (steps ex6 (Some ''dl'') 1 (init ''a'' (hackagify ''a'') {})) =
     Some [(''dl/MIT/a'', ''Not Found'')]"
  by (simp add: model_defs ex_defs)

section \<open>The report\<close>





section \<open>Two runs on the same responses\<close>

lemma loop_body_env_cong:
  assumes "hash e1 = hash e2" "str_strip e1 = str_strip e2"
    "requests_get e1 = requests_get e2"
    "BeautifulSoup e1 = BeautifulSoup e2" "makedirs_fails e1 = makedirs_fails e2"
    "open_fails e1 = open_fails e2"
  shows "loop_body e1 dl s = loop_body e2 dl s"
proof -
  have cd: "check_download e1 dl x = check_download e2 dl x" for x
    by (simp add: check_download_def assms split: option.splits)
  have gl: "get_license_body e1 i lu html x = get_license_body e2 i lu html x" for i lu html x
    by (simp add: get_license_body_def assms Let_def split: option.splits)
  have nl: "new_license e1 dl i l h b x = new_license e2 dl i l h b x" for i l h b x
    by (simp add: new_license_def assms Let_def split: option.splits)
  have lh: "license_hash_of e1 b = license_hash_of e2 b" for b
    by (simp add: license_hash_of_def assms split: option.splits)
  have rp: "record_package e1 dl i u t sh l lu deps b x = record_package e2 dl i u t sh l lu deps b x"
    for i u t sh l lu deps b x
    by (simp add: record_package_def lh nl Let_def split: sum.splits)
  have pp: "parse_page e1 dl i u t html x = parse_page e2 dl i u t html x" for i u t html x
    by (simp add: parse_page_def assms gl rp split: sum.splits prod.splits)
  show ?thesis
    by (simp add: loop_body_def assms cd pp Let_def split: list.splits sum.splits)
qed

lemma while_loop_env_cong:
  assumes "hash e1 = hash e2" "str_strip e1 = str_strip e2"
    "requests_get e1 = requests_get e2"
    "BeautifulSoup e1 = BeautifulSoup e2" "makedirs_fails e1 = makedirs_fails e2"
    "open_fails e1 = open_fails e2"
  shows "while_loop e1 dl n s = while_loop e2 dl n s"
  by (induction n arbitrary: s) (simp_all add: loop_body_env_cong [OF assms] split: sum.splits)

lemma loop_body_None_error:
  assumes "todo s = (i, u, t) # rest"
  shows "loop_body e None s = Inl err \<longleftrightarrow>
     i \<notin> done s \<and> status_code (requests_get e (nreq s) u) = 200 \<and>
     BeautifulSoup e (text (requests_get e (nreq s) u)) = Inl err"
proof -
  have rp: "record_package e None i u t sh l lu deps b x \<noteq> Inl err" for sh l lu deps b x
    by (simp add: record_package_def new_license_def Let_def)
  have pp: "parse_page e None i u t html x = Inl err \<longleftrightarrow>
      BeautifulSoup e (text html) = Inl err" for html x
    by (auto simp: parse_page_def rp split: sum.splits prod.splits)
  show ?thesis
    using assms by (auto simp: loop_body_def check_download_def Let_def pp)
qed

lemma forget_hashes_update:
  "forget_hashes (AList.update k v al) =
     AList.update k (v\<lparr>license_hash := None\<rparr>) (forget_hashes al)"
  by (induction al) (auto simp: forget_hashes_def)

lemma loop_body_same_crawl:
  assumes rg: "requests_get e1 = requests_get e2" and bs: "BeautifulSoup e1 = BeautifulSoup e2"
    and sc: "same_crawl s1 s2"
    and a: "loop_body e1 None s1 = Inr a" and b: "loop_body e2 None s2 = Inr b"
  shows "same_crawl a b"
proof -
  from sc have eq: "todo s1 = todo s2" "done s1 = done s2" "heap s1 = heap s2"
    "tree s1 = tree s2" "nreq s1 = nreq s2" "trace s1 = trace s2"
    "forget_hashes (res s1) = forget_hashes (res s2)"
    unfolding same_crawl_def by blast+
  from a obtain i u t rest where td: "todo s1 = (i, u, t) # rest"
    by (cases "todo s1") (auto simp: loop_body_def)
  with eq(1) have td2: "todo s2 = (i, u, t) # rest" by simp
  have pd: "todo (push_deps t deps (s1\<lparr>todo := rest\<rparr>)) = todo (push_deps t deps (s2\<lparr>todo := rest\<rparr>))"
     "heap (push_deps t deps (s1\<lparr>todo := rest\<rparr>)) = heap (push_deps t deps (s2\<lparr>todo := rest\<rparr>))"
    for deps
    using push_deps_cong [of "s1\<lparr>todo := rest\<rparr>" "s2\<lparr>todo := rest\<rparr>" t deps] eq(3) by simp_all
  from a td show ?thesis
  proof (cases rule: loop_body_cases)
    case skip
    note A = skip
    from b td2 show ?thesis
    proof (cases rule: loop_body_cases)
      case skip
      with A eq show ?thesis by (simp add: same_crawl_def)
    next
      case (failed html)
      with A eq show ?thesis by simp
    next
      case (ok html sh rows l lu deps ws b h ls)
      with A eq show ?thesis by simp
    qed
  next
    case (failed html)
    note A = failed
    from b td2 show ?thesis
    proof (cases rule: loop_body_cases)
      case skip
      with A eq show ?thesis by simp
    next
      case (failed html')
      with A eq rg show ?thesis by (simp add: same_crawl_def)
    next
      case (ok html' sh rows l lu deps ws b h ls)
      with A eq rg show ?thesis by simp
    qed
  next
    case (ok html sh rows l lu deps ws bd h ls)
    note A = ok
    from b td2 show ?thesis
    proof (cases rule: loop_body_cases)
      case skip
      with A eq show ?thesis by simp
    next
      case (failed html')
      with A eq rg show ?thesis by simp
    next
      case (ok html' sh' rows' l' lu' deps' ws' bd' h' ls')
      from A(2) ok(2) eq(5) rg have h: "html' = html" by simp
      with A(4) ok(4) bs have p: "sh' = sh" "rows' = rows" by simp_all
      with A(5) ok(5) have q: "l' = l" "lu' = lu" "deps' = deps" "ws' = ws" by simp_all
      have "todo a = todo b" "heap a = heap b"
        unfolding A(13,14) ok(13,14) q by (rule pd)+
      moreover have "done a = done b" "tree a = tree b" "nreq a = nreq b"
        unfolding A ok q using eq by (simp_all split: option.splits)
      moreover have "trace a = trace b"
        unfolding A(16) ok(16) h q using eq(5,6) rg by (simp split: option.splits)
      moreover have "forget_hashes (res a) = forget_hashes (res b)"
        unfolding A(10) ok(10) p q forget_hashes_update using eq(7) by simp
      ultimately show ?thesis unfolding same_crawl_def by blast
    qed
  qed
qed

lemma while_loop_same_crawl:
  assumes rg: "requests_get e1 = requests_get e2" and bs: "BeautifulSoup e1 = BeautifulSoup e2"
    and sc: "same_crawl s1 s2"
  shows "(while_loop e1 None n s1 = None \<longleftrightarrow> while_loop e2 None n s2 = None) \<and>
         (\<forall>err. while_loop e1 None n s1 = Some (Inl err) \<longleftrightarrow>
                 while_loop e2 None n s2 = Some (Inl err)) \<and>
         (\<forall>a b. while_loop e1 None n s1 = Some (Inr a) \<and>
                 while_loop e2 None n s2 = Some (Inr b) \<longrightarrow> same_crawl a b)"
  using sc
proof (induction n arbitrary: s1 s2)
  case 0
  then have "todo s1 = todo s2" unfolding same_crawl_def by blast
  with 0 show ?case by auto
next
  case (Suc n)
  from Suc.prems have eq: "todo s1 = todo s2" "done s1 = done s2" "nreq s1 = nreq s2"
    unfolding same_crawl_def by blast+
  show ?case
  proof (cases "todo s1")
    case Nil
    with eq(1) Suc.prems show ?thesis by auto
  next
    case (Cons x rest)
    obtain i u t where x: "x = (i, u, t)" by (cases x)
    from Cons x eq(1) have td: "todo s1 = (i, u, t) # rest" "todo s2 = (i, u, t) # rest"
      by simp_all
    have errs: "loop_body e1 None s1 = Inl err \<longleftrightarrow> loop_body e2 None s2 = Inl err" for err
      unfolding loop_body_None_error [OF td(1)] loop_body_None_error [OF td(2)]
      using eq rg bs by simp
    show ?thesis
    proof (cases "loop_body e1 None s1")
      case (Inl err)
      with errs [of err] have "loop_body e2 None s2 = Inl err" by blast
      with Inl td show ?thesis by simp
    next
      case (Inr a)
      have "loop_body e2 None s2 \<noteq> Inl err" for err
        using errs [of err] Inr by simp
      then obtain b where b: "loop_body e2 None s2 = Inr b"
        by (cases "loop_body e2 None s2") auto
      from loop_body_same_crawl [OF rg bs Suc.prems Inr b] have "same_crawl a b" .
      from Suc.IH [OF this] Inr b td show ?thesis by simp
    qed
  qed
qed

lemma read_tree_cong: "tree a = tree b \<Longrightarrow> heap a = heap b \<Longrightarrow> read_tree a = read_tree b"
  by (simp add: read_tree_def split: tree_var.splits)

lemma same_crawl_init: "same_crawl (init i u fs1) (init i u fs2)"
  by (simp add: same_crawl_def init_def)

lemma same_up_to_hashes_simps:
  "same_up_to_hashes None None"
  "same_up_to_hashes (Some (Inl x)) (Some (Inl y)) \<longleftrightarrow> x = y"
  "same_up_to_hashes (Some (Inr (p1, t1, l1))) (Some (Inr (p2, t2, l2))) \<longleftrightarrow>
     forget_hashes p1 = forget_hashes p2 \<and> t1 = t2"
  by (simp_all add: same_up_to_hashes_def)

lemma rel_results:
  assumes n: "w1 = None \<longleftrightarrow> w2 = None"
    and l: "\<forall>err. w1 = Some (Inl err) \<longleftrightarrow> w2 = Some (Inl err)"
  shows "(w1 = None \<and> w2 = None) \<or> (\<exists>err. w1 = Some (Inl err) \<and> w2 = Some (Inl err)) \<or>
         (\<exists>a b. w1 = Some (Inr a) \<and> w2 = Some (Inr b))"
proof (cases w1)
  case None
  with n show ?thesis by simp
next
  case (Some x)
  with n obtain y where y: "w2 = Some y" by auto
  show ?thesis
  proof (cases x)
    case (Inl err)
    with Some l show ?thesis by simp
  next
    case (Inr a)
    show ?thesis
    proof (cases y)
      case (Inl err)
      with y l Some Inr show ?thesis by simp
    next
      case b: (Inr b)
      with y Some Inr show ?thesis by simp
    qed
  qed
qed

lemma while_loop_same_crawl_cases:
  assumes "requests_get e1 = requests_get e2" and "BeautifulSoup e1 = BeautifulSoup e2"
  shows "(while_loop e1 None fuel (init i u fs1) = None \<and> while_loop e2 None fuel (init i u fs2) = None) \<or>
     (\<exists>err. while_loop e1 None fuel (init i u fs1) = Some (Inl err) \<and>
            while_loop e2 None fuel (init i u fs2) = Some (Inl err)) \<or>
     (\<exists>a b. while_loop e1 None fuel (init i u fs1) = Some (Inr a) \<and>
            while_loop e2 None fuel (init i u fs2) = Some (Inr b) \<and> same_crawl a b)"
proof -
  let ?w1 = "while_loop e1 None fuel (init i u fs1)"
  let ?w2 = "while_loop e2 None fuel (init i u fs2)"
  note w = while_loop_same_crawl [OF assms same_crawl_init, of fuel i u fs1 fs2]
  from w have n: "?w1 = None \<longleftrightarrow> ?w2 = None" by (rule conjunct1)
  from w have l: "\<forall>err. ?w1 = Some (Inl err) \<longleftrightarrow> ?w2 = Some (Inl err)"
    by (elim conjE)
  from w have r: "\<forall>a b. ?w1 = Some (Inr a) \<and> ?w2 = Some (Inr b) \<longrightarrow> same_crawl a b"
    by (elim conjE)
  from rel_results [OF n l] r show ?thesis by blast
qed

lemma same_crawl_result:
  "same_crawl a b \<Longrightarrow> forget_hashes (res a) = forget_hashes (res b) \<and> read_tree a = read_tree b"
  by (auto simp: same_crawl_def intro: read_tree_cong)

lemma scrape_same_up_to_hashes:
  assumes "requests_get e1 = requests_get e2" and "BeautifulSoup e1 = BeautifulSoup e2"
  shows "same_up_to_hashes (scrape e1 fs1 fuel i u None) (scrape e2 fs2 fuel i u None)"
  using while_loop_same_crawl_cases [OF assms, of fuel i u fs1 fs2]
proof (elim disjE conjE exE)
  assume "while_loop e1 None fuel (init i u fs1) = None"
     "while_loop e2 None fuel (init i u fs2) = None"
  then show ?thesis by (simp add: scrape_def same_up_to_hashes_simps)
next
  fix err assume "while_loop e1 None fuel (init i u fs1) = Some (Inl err)"
     "while_loop e2 None fuel (init i u fs2) = Some (Inl err)"
  then show ?thesis by (simp add: scrape_def same_up_to_hashes_simps)
next
  fix a b assume "while_loop e1 None fuel (init i u fs1) = Some (Inr a)"
     "while_loop e2 None fuel (init i u fs2) = Some (Inr b)" "same_crawl a b"
  then show ?thesis
    using same_crawl_result [of a b] by (simp add: scrape_def same_up_to_hashes_simps)
qed

text \<open>
  Claim C8 as stated fails when the hash function of the second run is not that of the
  first, as with the per-process salt of Python's \<open>hash\<close>: the responses are the same, the
  stored license hashes and the keys of the license map are not.
\<close>

theorem stored_hashes_depend_on_hash:
  "requests_get ex9_neg = requests_get ex9 \<and>
   BeautifulSoup ex9_neg = BeautifulSoup ex9 \<and>
   scrape ex9 {} 2 ''a'' (hackagify ''a'') None =
     Some (Inr (ex9_res ''7'', ListVal [], ex9_licenses ''7'')) \<and>
   scrape ex9_neg {} 2 ''a'' (hackagify ''a'') None =
     Some (Inr (ex9_res ''x7'', ListVal [], ex9_licenses ''x7'')) \<and>
   ex9_res ''7'' \<noteq> ex9_res ''x7''"
  by (simp add: model_defs ex_defs eval_nat_numeral ex9_res_def ex9_licenses_def
        ex9_neg_def neg_length_def)

text \<open>
  Claim C8, amended. For two runs with the same responses and the same page parses: if
  they also have the same hash function and the same file system failures, the results
  of \<open>scrape\<close> are equal; and without a download folder, whatever the two hash functions
  and file systems, either both run out of fuel, or both stop with the same error, or
  both return, with package maps that are equal up to the stored license hashes and
  with equal trees.
\<close>

theorem crawl_deterministic_given_hash:
  assumes "requests_get e1 = requests_get e2" and "BeautifulSoup e1 = BeautifulSoup e2"
  shows "(hash e1 = hash e2 \<and> str_strip e1 = str_strip e2 \<and>
          makedirs_fails e1 = makedirs_fails e2 \<and> open_fails e1 = open_fails e2 \<longrightarrow>
            scrape e1 fs fuel i u download = scrape e2 fs fuel i u download) \<and>
         same_up_to_hashes (scrape e1 fs1 fuel i u None) (scrape e2 fs2 fuel i u None)"
proof (intro conjI impI)
  assume a: "hash e1 = hash e2 \<and> str_strip e1 = str_strip e2 \<and>
          makedirs_fails e1 = makedirs_fails e2 \<and> open_fails e1 = open_fails e2"
  from a have h: "hash e1 = hash e2" by (rule conjunct1)
  from a have s: "str_strip e1 = str_strip e2" by (elim conjE)
  from a have m: "makedirs_fails e1 = makedirs_fails e2" by (elim conjE)
  from a have p: "open_fails e1 = open_fails e2" by (elim conjE)
  show "scrape e1 fs fuel i u download = scrape e2 fs fuel i u download"
    unfolding scrape_def while_loop_env_cong [OF h s assms m p] ..
next
  show "same_up_to_hashes (scrape e1 fs1 fuel i u None) (scrape e2 fs2 fuel i u None)"
    using assms by (rule scrape_same_up_to_hashes)
qed

theorem crawl_deterministic_given_hash_witness:
  "requests_get ex9 = requests_get ex9_color \<and>
   BeautifulSoup ex9 = BeautifulSoup ex9_color \<and>
   hash ex9 = hash ex9_color \<and>
   str_strip ex9 = str_strip ex9_color \<and>
   makedirs_fails ex9 = makedirs_fails ex9_color \<and>
   open_fails ex9 = open_fails ex9_color \<and>
   scrape ex9 {} 2 ''a'' (hackagify ''a'') (Some ''dl'') =
     scrape ex9_color {} 2 ''a'' (hackagify ''a'') (Some ''dl'') \<and>
   requests_get ex9 = requests_get ex9_neg \<and>
   BeautifulSoup ex9 = BeautifulSoup ex9_neg \<and>
   same_up_to_hashes (scrape ex9 {} 2 ''a'' (hackagify ''a'') None)
     (scrape ex9_neg {''dl''} 2 ''a'' (hackagify ''a'') None)"
proof -
  have a: "requests_get ex9 = requests_get ex9_color"
    "BeautifulSoup ex9 = BeautifulSoup ex9_color"
    and a': "hash ex9 = hash ex9_color"
    "str_strip ex9 = str_strip ex9_color"
    "makedirs_fails ex9 = makedirs_fails ex9_color"
    "open_fails ex9 = open_fails ex9_color"
    and b: "requests_get ex9 = requests_get ex9_neg"
    "BeautifulSoup ex9 = BeautifulSoup ex9_neg"
    by (simp_all add: ex9_neg_def ex9_color_def)
  from crawl_deterministic_given_hash [OF a, of "{}" 2 "''a''" "hackagify ''a''" "Some ''dl''",
      THEN conjunct1] a'
  have c: "scrape ex9 {} 2 ''a'' (hackagify ''a'') (Some ''dl'') =
     scrape ex9_color {} 2 ''a'' (hackagify ''a'') (Some ''dl'')"
    by blast
  from crawl_deterministic_given_hash [OF b, THEN conjunct2]
  have d: "same_up_to_hashes (scrape ex9 {} 2 ''a'' (hackagify ''a'') None)
     (scrape ex9_neg {''dl''} 2 ''a'' (hackagify ''a'') None)" .
  from a a' b c d show ?thesis by (intro conjI)
qed

end
